theory Spec2Isabelle
  imports
    Main
    "HOL-Library.Word"
    "HOL-Library.Multiset"
    "HOL-Library.Char_ord"
    "HOL-Library.List_Lexorder"
begin

chapter \<open>dbtester: the benchmark controller and the agent, in HOL\<close>

text \<open>
  The development follows the two Go files of the repository: the controller
  (package \<open>control\<close>: \<open>CommandFunc\<close>, \<open>step2\<close>, \<open>bcastReq\<close>, \<open>sendReq\<close>,
  \<open>generateReads\<close>, \<open>generateWrites\<close>) and the agent (package \<open>agent\<close>:
  \<open>Transfer\<close> with its monitor goroutine). Go strings are \<open>string\<close> (byte lists), Go
  \<open>int\<close> is \<open>int\<close>, \<open>uint32\<close> is \<open>32 word\<close>, a Go \<open>error\<close> is a value of type
  \<open>error\<close> and \<open>nil\<close> is \<open>None\<close>. A run-time panic and \<open>os.Exit\<close> are results of
  their own, never hidden behind an unspecified HOL value. Goroutines and channels are
  modelled by an interleaving step relation on an explicit state.

  All definitions come first; the lemmas and theorems follow.
\<close>

section \<open>Definitions\<close>

subsection \<open>Library functions of Go used by the code\<close>

text \<open>
  \<open>strings.HasPrefix\<close>, \<open>strings.Contains\<close>, \<open>strings.Join\<close> and \<open>strings.Split\<close> of the Go
  standard library, on byte strings. \<open>Split\<close> with a non-empty separator cuts at the
  leftmost occurrence of the separator, again and again, and always returns at least one
  piece; with an empty separator it explodes the string into its bytes.
\<close>

definition HasPrefix :: "string \<Rightarrow> string \<Rightarrow> bool" where
  "HasPrefix s p = (length p \<le> length s \<and> take (length p) s = p)"

fun Contains :: "string \<Rightarrow> string \<Rightarrow> bool" where
  "Contains [] sub = HasPrefix [] sub"
| "Contains (c # cs) sub = (HasPrefix (c # cs) sub \<or> Contains cs sub)"

fun Join :: "string list \<Rightarrow> string \<Rightarrow> string" where
  "Join [] sep = []"
| "Join [x] sep = x"
| "Join (x # y # ys) sep = x @ sep @ Join (y # ys) sep"

function splitLoop :: "string \<Rightarrow> string \<Rightarrow> string \<Rightarrow> string list" where
  "splitLoop sep cur [] = [cur]"
| "splitLoop sep cur (c # cs) =
     (if sep \<noteq> [] \<and> HasPrefix (c # cs) sep
      then cur # splitLoop sep [] (drop (length sep) (c # cs))
      else splitLoop sep (cur @ [c]) cs)"
  by pat_completeness auto
termination
  by (relation "measure (\<lambda>(sep, cur, s). length s)") (auto simp: neq_Nil_conv)

definition Split :: "string \<Rightarrow> string \<Rightarrow> string list" where
  "Split s sep = (if sep = [] then map (\<lambda>c. [c]) s else splitLoop sep [] s)"

text \<open>
  \<open>fmt.Sprintf("%d", n)\<close>: the decimal digits of a number, no leading zero, a minus sign
  for a negative one.
\<close>

definition digit_char :: "nat \<Rightarrow> char" where
  "digit_char d = char_of (48 + d)"

fun itoa :: "nat \<Rightarrow> string" where
  "itoa n = (if n < 10 then [digit_char n] else itoa (n div 10) @ [digit_char (n mod 10)])"

declare itoa.simps [simp del]

definition itoaInt :: "int \<Rightarrow> string" where
  "itoaInt i = (if i < 0 then CHR ''-'' # itoa (nat (- i)) else itoa (nat i))"

text \<open>
  Go's \<open>%\<close> on \<open>int\<close> truncates towards zero and panics on a zero divisor; indexing a
  slice panics out of range.
\<close>

definition go_rem :: "int \<Rightarrow> int \<Rightarrow> int option" where
  "go_rem a b = (if b = 0 then None else Some (sgn a * (\<bar>a\<bar> mod \<bar>b\<bar>)))"

definition index :: "'a list \<Rightarrow> int \<Rightarrow> 'a option" where
  "index xs i = (if 0 \<le> i \<and> i < int (length xs) then Some (xs ! nat i) else None)"

text \<open>
  The peer list travels as one string: \<open>CommandFunc\<close> joins the peer IPs with \<open>___\<close>
  and \<open>Transfer\<close> splits the string at \<open>___\<close>. A peer string is safe for that
  delimiter when it holds no \<open>___\<close> and does not end in an underscore (an underscore
  at its end would run into the delimiter that follows).
\<close>

definition delimSafe :: "string \<Rightarrow> bool" where
  "delimSafe x = (\<not> Contains x ''___'' \<and> (x = [] \<or> last x \<noteq> CHR ''_''))"

subsection \<open>Keys\<close>

text \<open>
  Modelled from the spec: \<open>sequentialKey\<close> and \<open>sameKey\<close> are called by
  \<open>generateWrites\<close> and \<open>step2\<close> but their bodies are not among the source files. The
  spec says: the key is "a zero-padded sequential key derived from the operation index
  and a configured key width", or "identical across all operations". The index is
  written in decimal and filled up with zeros on the left to the width. For an index
  with more digits than the width the spec gives no key: the model leaves the digits
  as they are. The fill byte of the fixed key is not given by the spec either. Both are
  choices of this model, and no theorem but the example of such an index depends on
  them.
\<close>

definition sequentialKey :: "nat \<Rightarrow> nat \<Rightarrow> string" where
  "sequentialKey sz num = replicate (sz - length (itoa num)) CHR ''0'' @ itoa num"

definition sameKey :: "nat \<Rightarrow> string" where
  "sameKey sz = replicate sz CHR ''a''"

text \<open>The same padding, digit by digit from the right (used in the proofs only).\<close>

fun padded :: "nat \<Rightarrow> nat \<Rightarrow> string" where
  "padded 0 n = []"
| "padded (Suc k) n = padded k (n div 10) @ [digit_char (n mod 10)]"

subsection \<open>Run configuration, value corpus, operations\<close>

text \<open>
  The fields of \<open>Config\<close> that the two files read (the type is declared elsewhere in
  the repository). \<open>values\<close> is the corpus built by \<open>newValues\<close>; \<open>request\<close> is the
  envelope with one payload per backend.
\<close>

record Step2Config =
  BenchType :: string
  TotalRequests :: int
  Clients :: int
  Connections :: int
  KeySize :: int
  ValueSize :: int
  ValueTestDataPath :: string
  SameKey :: bool
  LocalRead :: bool
  RequestIntervalMs :: int
  Etcdv3CompactionCycle :: int

record Config =
  Database :: string
  PeerIPs :: "string list"
  PeerIPString_cfg :: string
  AgentPort :: int
  DatabasePort :: int
  AgentEndpoints :: "string list"
  DatabaseEndpoints :: "string list"
  Step2 :: Step2Config

record values_t =
  bytes :: "string list"
  strings :: "string list"
  sampleSize :: int

datatype OpOption = WithRange string | WithSerializable

datatype clientv3Op = OpPut string string | OpGet string "OpOption list"

datatype request =
    etcdv2Op string string
  | etcdv3Op clientv3Op
  | zkOp string string
  | consulOp string string

fun requestKey :: "request \<Rightarrow> string" where
  "requestKey (etcdv2Op k v) = k"
| "requestKey (etcdv3Op (OpPut k v)) = k"
| "requestKey (etcdv3Op (OpGet k opts)) = k"
| "requestKey (zkOp k v) = k"
| "requestKey (consulOp k v) = k"

text \<open>
  The backends \<open>CommandFunc\<close> lets through (its first \<open>switch\<close>), and what it adds
  to the configuration before the steps: the joined peer list (the field
  \<open>PeerIPString\<close>, written \<open>PeerIPString_cfg\<close> here) and one agent endpoint and one
  database endpoint per peer, \<open>fmt.Sprintf("%s:%d", ip, port)\<close>.
\<close>

definition CommandFunc_endpoints :: "Config \<Rightarrow> Config" where
  "CommandFunc_endpoints cfg =
     cfg\<lparr>PeerIPString_cfg := Join (PeerIPs cfg) ''___'',
         AgentEndpoints := map (\<lambda>ip. ip @ '':'' @ itoaInt (AgentPort cfg)) (PeerIPs cfg),
         DatabaseEndpoints := map (\<lambda>ip. ip @ '':'' @ itoaInt (DatabasePort cfg)) (PeerIPs cfg)\<rparr>"


definition validDatabase :: "string \<Rightarrow> bool" where
  "validDatabase db =
     (db = ''etcdv2'' \<or> db = ''etcdv3'' \<or> db = ''zk'' \<or> db = ''zookeeper'' \<or> db = ''consul'')"

text \<open>
  \<open>newValues\<close>: one random value of the configured size when no data path is given,
  else the content of every file under the path. \<open>randBytes\<close>, \<open>walkDir\<close> and
  \<open>ioutil.ReadFile\<close> are outside the two files: their results are arguments (\<open>rnd\<close> the
  random bytes, \<open>walk\<close> the outcome of walking the directory with each file's read
  result).
\<close>

datatype error = Error string

fun readAll :: "(error + string) list \<Rightarrow> values_t \<Rightarrow> error + values_t" where
  "readAll [] v = Inr (v\<lparr>sampleSize := int (length (strings v))\<rparr>)"
| "readAll (Inl e # fs) v = Inl e"
| "readAll (Inr bts # fs) v = readAll fs (v\<lparr>bytes := bytes v @ [bts], strings := strings v @ [bts]\<rparr>)"

definition newValues ::
  "string \<Rightarrow> (error + (error + string) list) \<Rightarrow> Config \<Rightarrow> error + values_t" where
  "newValues rnd walk cfg =
     (if ValueTestDataPath (Step2 cfg) = [] then
        Inr \<lparr>bytes = [rnd], strings = [rnd], sampleSize = 1\<rparr>
      else (case walk of
              Inl e \<Rightarrow> Inl e
            | Inr fs \<Rightarrow> readAll fs \<lparr>bytes = [], strings = [], sampleSize = 0\<rparr>))"

definition valuesOK :: "values_t \<Rightarrow> bool" where
  "valuesOK vals =
     (0 < sampleSize vals \<and> sampleSize vals \<le> int (length (bytes vals))
      \<and> sampleSize vals \<le> int (length (strings vals)))"

subsection \<open>The generators\<close>

text \<open>
  \<open>generateWrites\<close> and \<open>generateReads\<close> run as goroutines. Each is modelled by the
  sequence of actions it performs on the shared state, in program order: starting a
  compaction task (\<open>wg.Add(1)\<close> and the \<open>go\<close> statement), sending a request into the
  queue, sleeping, and at the end the deferred \<open>close(requests)\<close>. A run-time panic
  (\<open>i % 0\<close>, an index out of range) ends the sequence with \<open>GPanic\<close>. The loop is the
  source's \<open>for i := 0; i < cfg.Step2.TotalRequests; i++\<close>.
\<close>

datatype gen_action =
    GCompact nat
  | GSend request
  | GSleep int
  | GClose
  | GPanic

definition writeRequest :: "string \<Rightarrow> string \<Rightarrow> string \<Rightarrow> string \<Rightarrow> gen_action list" where
  "writeRequest db k v vs =
     (if db = ''etcdv2'' then [GSend (etcdv2Op k vs)]
      else if db = ''etcdv3'' then [GSend (etcdv3Op (OpPut k vs))]
      else if db = ''zk'' \<or> db = ''zookeeper'' then [GSend (zkOp (''/'' @ k) v)]
      else if db = ''consul'' then [GSend (consulOp k v)]
      else [])"

definition pacing :: "Config \<Rightarrow> gen_action list" where
  "pacing cfg =
     (if RequestIntervalMs (Step2 cfg) > 0 then [GSleep (RequestIntervalMs (Step2 cfg))] else [])"

definition writeKey :: "Config \<Rightarrow> nat \<Rightarrow> string" where
  "writeKey cfg i =
     (if SameKey (Step2 cfg) then sameKey (nat (KeySize (Step2 cfg)))
      else sequentialKey (nat (KeySize (Step2 cfg))) i)"

function generateWritesLoop :: "Config \<Rightarrow> values_t \<Rightarrow> nat \<Rightarrow> gen_action list" where
  "generateWritesLoop cfg vals i =
     (if int i < TotalRequests (Step2 cfg) then
        (if Database cfg = ''etcdv3'' \<and> Etcdv3CompactionCycle (Step2 cfg) > 0
            \<and> go_rem (int i) (Etcdv3CompactionCycle (Step2 cfg)) = Some 0
         then [GCompact i] else []) @
        (let k = writeKey cfg i
         in case go_rem (int i) (sampleSize vals) of
              None \<Rightarrow> [GPanic]
            | Some j \<Rightarrow>
               (case index (bytes vals) j of
                  None \<Rightarrow> [GPanic]
                | Some v \<Rightarrow>
                   (case index (strings vals) j of
                      None \<Rightarrow> [GPanic]
                    | Some vs \<Rightarrow>
                        writeRequest (Database cfg) k v vs @ pacing cfg
                        @ generateWritesLoop cfg vals (Suc i))))
      else [GClose])"
  by pat_completeness simp
termination
  by (relation "measure (\<lambda>(cfg, vals, i). nat (TotalRequests (Step2 cfg) - int i))") simp_all

declare generateWritesLoop.simps [simp del]

definition generateWrites :: "Config \<Rightarrow> values_t \<Rightarrow> gen_action list" where
  "generateWrites cfg vals = generateWritesLoop cfg vals 0"

definition readRequest :: "Config \<Rightarrow> string \<Rightarrow> gen_action list" where
  "readRequest cfg k =
     (if Database cfg = ''etcdv2'' then [GSend (etcdv2Op k [])]
      else if Database cfg = ''etcdv3'' then
        [GSend (etcdv3Op (OpGet k
           (WithRange [] # (if LocalRead (Step2 cfg) then [WithSerializable] else []))))]
      else if Database cfg = ''zk'' \<or> Database cfg = ''zookeeper'' then [GSend (zkOp k [])]
      else if Database cfg = ''consul'' then [GSend (consulOp k [])]
      else [])"

function generateReadsLoop :: "Config \<Rightarrow> string \<Rightarrow> nat \<Rightarrow> gen_action list" where
  "generateReadsLoop cfg k i =
     (if int i < TotalRequests (Step2 cfg)
      then readRequest cfg k @ pacing cfg @ generateReadsLoop cfg k (Suc i)
      else [GClose])"
  by pat_completeness simp
termination
  by (relation "measure (\<lambda>(cfg, k, i). nat (TotalRequests (Step2 cfg) - int i))") simp_all

declare generateReadsLoop.simps [simp del]

definition generateReads :: "Config \<Rightarrow> string \<Rightarrow> gen_action list" where
  "generateReads cfg k = generateReadsLoop cfg k 0"

text \<open>The requests a generator sends, in order, and the compactions it starts.\<close>

fun sends :: "gen_action list \<Rightarrow> request list" where
  "sends [] = []"
| "sends (GSend r # as) = r # sends as"
| "sends (a # as) = sends as"


text \<open>The request \<open>generateWrites\<close> builds at index \<open>i\<close>, when the corpus has a value there.\<close>

definition writeOp :: "Config \<Rightarrow> values_t \<Rightarrow> nat \<Rightarrow> request" where
  "writeOp cfg vals i =
     (let j = nat (int i mod sampleSize vals); k = writeKey cfg i;
          v = bytes vals ! j; vs = strings vals ! j
      in if Database cfg = ''etcdv2'' then etcdv2Op k vs
         else if Database cfg = ''etcdv3'' then etcdv3Op (OpPut k vs)
         else if Database cfg = ''zk'' \<or> Database cfg = ''zookeeper'' then zkOp (''/'' @ k) v
         else consulOp k v)"

definition keyPrefix :: "string \<Rightarrow> string" where
  "keyPrefix db = (if db = ''zk'' \<or> db = ''zookeeper'' then ''/'' else [])"

subsection \<open>One benchmark phase: generator, workers, aggregator, driver\<close>

text \<open>
  \<open>step2\<close> makes the queue \<open>requests\<close> with capacity \<open>cfg.Step2.Clients\<close>, builds the
  handlers \<open>h\<close>, starts one worker goroutine per entry of \<open>h\<close> (\<open>for i := range h\<close>,
  \<open>wg.Add(1)\<close> each), starts the aggregator (\<open>printReport\<close>) and the generator, and blocks
  in \<open>wg.Wait()\<close>; then it finishes the progress bar, closes \<open>results\<close> and waits for the
  aggregator (\<open><-pdoneC\<close>).

  The goroutines are modelled by an interleaving step relation on the state below.
  \<open>script\<close> is what the generator still has to do, \<open>requests\<close> the buffer of the queue,
  \<open>handlers\<close> the slice \<open>h\<close> (entry \<open>i\<close> is \<open>True\<close> when \<open>h[i]\<close> was set and \<open>False\<close> when
  it was left \<open>nil\<close>), \<open>wg\<close> the counter of the wait group, \<open>compactions\<close> the number
  of compaction tasks that were started and have not returned, \<open>results\<close> the outcomes
  the aggregator has received, \<open>report\<close> its final report, \<open>driver\<close> where \<open>step2\<close> stands and \<open>crashed\<close>
  whether a goroutine has panicked (which ends the process). \<open>sent\<close> records the
  requests the generator has handed to the queue; the code has no such variable, the
  theorems use it to say what was sent.

  Modelled from the spec: the worker loop \<open>doHandler\<close> and the aggregator
  \<open>printReport\<close> are called by \<open>step2\<close> but their bodies are not among the source
  files. The spec says of a worker: "receive next operation from the shared queue
  (exits cleanly when the queue is closed and empty), execute it against its dedicated
  connection, record elapsed time and error status as an Outcome, publish the Outcome";
  and of the aggregator: "Consumes Outcomes from a single merged stream fed by all
  workers. [...] Finalizes and emits a report only after the Outcome stream is
  explicitly closed by the driver". \<open>results\<close> is an unbuffered channel (\<open>make(chan
  result)\<close>), so publishing is a hand-over to the aggregator. The outcome carries the
  operation it belongs to and whether the backend reported an error. A worker whose
  handler is \<open>nil\<close> has nothing to execute the operation with: calling a \<open>nil\<close> function
  value is a run-time panic in Go.
\<close>

datatype outcome = Outcome request bool

fun outcomeOp :: "outcome \<Rightarrow> request" where
  "outcomeOp (Outcome r failed) = r"

datatype worker = WRecv | WExec request | WSend outcome | WExit

datatype driver_pc = DWait | DFinish | DClosed | DDone

record pipeline =
  script :: "gen_action list"
  sent :: "request list"
  requests :: "request list"
  requests_cap :: nat
  requests_closed :: bool
  workers :: "worker list"
  handlers :: "bool list"
  compactions :: nat
  wg :: int
  results :: "outcome list"
  results_closed :: bool
  report :: "outcome list option"
  driver :: driver_pc
  crashed :: bool

definition startPhase :: "Config \<Rightarrow> bool list \<Rightarrow> gen_action list \<Rightarrow> pipeline" where
  "startPhase cfg h scr =
     \<lparr>script = scr, sent = [], requests = [],
      requests_cap = nat (Clients (Step2 cfg)), requests_closed = False,
      workers = replicate (length h) WRecv, handlers = h,
      compactions = 0, wg = int (length h),
      results = [], results_closed = False, report = None,
      driver = DWait, crashed = False\<rparr>"

definition hasHandler :: "pipeline \<Rightarrow> nat \<Rightarrow> bool" where
  "hasHandler s i = (i < length (handlers s) \<and> handlers s ! i)"

text \<open>
  The steps. Generator: \<open>gen_compact\<close> is \<open>wg.Add(1)\<close> with the \<open>go\<close> statement of the
  compaction task; \<open>gen_send\<close> is \<open>requests <- r\<close> into a buffer that is not full and
  \<open>gen_handoff\<close> the same send taken at once by a waiting worker; a send or a close on
  a closed channel panics. Worker \<open>i\<close>: \<open>w_recv\<close> takes the oldest request, \<open>w_exit\<close>
  leaves the \<open>range\<close> loop on a closed and empty queue and runs the deferred
  \<open>wg.Done()\<close>, \<open>w_exec\<close> runs the handler, \<open>w_exec_nil\<close> is the panic of a worker
  that has no handler, \<open>w_publish\<close> hands the outcome to the aggregator. \<open>comp_done\<close> is the deferred \<open>wg.Done()\<close> of a compaction task.
  Driver: \<open>d_wait\<close> is the return of \<open>wg.Wait()\<close>, possible only at counter zero;
  \<open>d_close\<close> is \<open>bar.Finish(); close(results)\<close>; \<open>agg_final\<close> is the aggregator's final
  report after the stream is closed; \<open>d_done\<close> is \<open><-pdoneC\<close>.
\<close>

inductive step :: "pipeline \<Rightarrow> pipeline \<Rightarrow> bool" where
  gen_compact:
    "\<not> crashed s \<Longrightarrow> script s = GCompact i # rest \<Longrightarrow>
     step s (s\<lparr>script := rest, wg := wg s + 1, compactions := Suc (compactions s)\<rparr>)"
| gen_send:
    "\<not> crashed s \<Longrightarrow> script s = GSend r # rest \<Longrightarrow> \<not> requests_closed s \<Longrightarrow>
     length (requests s) < requests_cap s \<Longrightarrow>
     step s (s\<lparr>script := rest, requests := requests s @ [r], sent := sent s @ [r]\<rparr>)"
| gen_handoff:
    "\<not> crashed s \<Longrightarrow> script s = GSend r # rest \<Longrightarrow> \<not> requests_closed s \<Longrightarrow>
     requests s = [] \<Longrightarrow> i < length (workers s) \<Longrightarrow> workers s ! i = WRecv \<Longrightarrow>
     step s (s\<lparr>script := rest, workers := (workers s)[i := WExec r], sent := sent s @ [r]\<rparr>)"
| gen_send_closed:
    "\<not> crashed s \<Longrightarrow> script s = GSend r # rest \<Longrightarrow> requests_closed s \<Longrightarrow>
     step s (s\<lparr>script := rest, crashed := True\<rparr>)"
| gen_sleep:
    "\<not> crashed s \<Longrightarrow> script s = GSleep d # rest \<Longrightarrow> step s (s\<lparr>script := rest\<rparr>)"
| gen_close:
    "\<not> crashed s \<Longrightarrow> script s = GClose # rest \<Longrightarrow> \<not> requests_closed s \<Longrightarrow>
     step s (s\<lparr>script := rest, requests_closed := True\<rparr>)"
| gen_close_closed:
    "\<not> crashed s \<Longrightarrow> script s = GClose # rest \<Longrightarrow> requests_closed s \<Longrightarrow>
     step s (s\<lparr>script := rest, crashed := True\<rparr>)"
| gen_panic:
    "\<not> crashed s \<Longrightarrow> script s = GPanic # rest \<Longrightarrow>
     step s (s\<lparr>script := rest, crashed := True\<rparr>)"
| w_recv:
    "\<not> crashed s \<Longrightarrow> i < length (workers s) \<Longrightarrow> workers s ! i = WRecv \<Longrightarrow>
     requests s = r # q \<Longrightarrow>
     step s (s\<lparr>requests := q, workers := (workers s)[i := WExec r]\<rparr>)"
| w_exit:
    "\<not> crashed s \<Longrightarrow> i < length (workers s) \<Longrightarrow> workers s ! i = WRecv \<Longrightarrow>
     requests s = [] \<Longrightarrow> requests_closed s \<Longrightarrow>
     step s (s\<lparr>workers := (workers s)[i := WExit], wg := wg s - 1\<rparr>)"
| w_exec:
    "\<not> crashed s \<Longrightarrow> i < length (workers s) \<Longrightarrow> workers s ! i = WExec r \<Longrightarrow>
     hasHandler s i \<Longrightarrow>
     step s (s\<lparr>workers := (workers s)[i := WSend (Outcome r failed)]\<rparr>)"
| w_exec_nil:
    "\<not> crashed s \<Longrightarrow> i < length (workers s) \<Longrightarrow> workers s ! i = WExec r \<Longrightarrow>
     \<not> hasHandler s i \<Longrightarrow>
     step s (s\<lparr>crashed := True\<rparr>)"
| w_publish:
    "\<not> crashed s \<Longrightarrow> i < length (workers s) \<Longrightarrow> workers s ! i = WSend out \<Longrightarrow>
     \<not> results_closed s \<Longrightarrow>
     step s (s\<lparr>workers := (workers s)[i := WRecv], results := results s @ [out]\<rparr>)"
| w_publish_closed:
    "\<not> crashed s \<Longrightarrow> i < length (workers s) \<Longrightarrow> workers s ! i = WSend out \<Longrightarrow>
     results_closed s \<Longrightarrow>
     step s (s\<lparr>crashed := True\<rparr>)"
| comp_done:
    "\<not> crashed s \<Longrightarrow> 0 < compactions s \<Longrightarrow>
     step s (s\<lparr>compactions := compactions s - 1, wg := wg s - 1\<rparr>)"
| d_wait:
    "\<not> crashed s \<Longrightarrow> driver s = DWait \<Longrightarrow> wg s = 0 \<Longrightarrow>
     step s (s\<lparr>driver := DFinish\<rparr>)"
| d_close:
    "\<not> crashed s \<Longrightarrow> driver s = DFinish \<Longrightarrow>
     step s (s\<lparr>results_closed := True, driver := DClosed\<rparr>)"
| agg_final:
    "\<not> crashed s \<Longrightarrow> results_closed s \<Longrightarrow> report s = None \<Longrightarrow>
     step s (s\<lparr>report := Some (results s)\<rparr>)"
| d_done:
    "\<not> crashed s \<Longrightarrow> driver s = DClosed \<Longrightarrow> report s \<noteq> None \<Longrightarrow>
     step s (s\<lparr>driver := DDone\<rparr>)"

inductive reaches :: "pipeline \<Rightarrow> pipeline \<Rightarrow> bool" where
  initial: "reaches s s"
| after: "reaches s t \<Longrightarrow> step t u \<Longrightarrow> reaches s u"

text \<open>
  What a worker holds, whether it is still running, and a quantity that every step
  makes smaller (so that no run goes on forever).
\<close>

fun held :: "worker \<Rightarrow> request multiset" where
  "held WRecv = {#}"
| "held (WExec r) = {#r#}"
| "held (WSend out) = {#outcomeOp out#}"
| "held WExit = {#}"

fun alive :: "worker \<Rightarrow> nat" where
  "alive WExit = 0"
| "alive w = 1"

fun workerLeft :: "worker \<Rightarrow> nat" where
  "workerLeft WRecv = 1"
| "workerLeft (WExec r) = 3"
| "workerLeft (WSend out) = 2"
| "workerLeft WExit = 0"

fun actionLeft :: "gen_action \<Rightarrow> nat" where
  "actionLeft (GSend r) = 4"
| "actionLeft (GCompact i) = 2"
| "actionLeft a = 1"

fun driverLeft :: "driver_pc \<Rightarrow> nat" where
  "driverLeft DWait = 3"
| "driverLeft DFinish = 2"
| "driverLeft DClosed = 1"
| "driverLeft DDone = 0"

definition workLeft :: "pipeline \<Rightarrow> nat" where
  "workLeft s =
     (if crashed s then 0 else 1)
     + sum_list (map actionLeft (script s)) + 3 * length (requests s)
     + sum_list (map workerLeft (workers s)) + compactions s
     + driverLeft (driver s) + (if report s = None then 1 else 0)"

text \<open>
  A well-formed script ends with the close of the queue, closes it nowhere else and
  does not panic.
\<close>

definition scriptOK :: "gen_action list \<Rightarrow> bool" where
  "scriptOK as = (as \<noteq> [] \<and> last as = GClose \<and> GClose \<notin> set (butlast as) \<and> GPanic \<notin> set as)"

text \<open>
  The invariants of a phase. \<open>closesLast\<close>: the script closes the queue at its end or
  not at all. \<open>barrierInv\<close>: the counter of the wait group is the number of workers
  that have not returned plus the number of compaction tasks that have not returned;
  a worker has returned only after the queue was closed, which ends the generator; and
  once \<open>wg.Wait()\<close> has returned the counter is zero. \<open>phaseInv\<close>: nothing has
  panicked, every worker has a handler, the queue has room for one request per worker,
  the results are closed only after the barrier, the report is the received outcomes,
  and every request sent is in the queue, with a worker, or in an outcome the
  aggregator has received.
\<close>

definition closesLast :: "gen_action list \<Rightarrow> bool" where
  "closesLast as = (GClose \<notin> set (butlast as))"

definition barrierInv :: "nat \<Rightarrow> pipeline \<Rightarrow> bool" where
  "barrierInv W s =
     (wg s = int (sum_list (map alive (workers s))) + int (compactions s)
      \<and> length (workers s) = W
      \<and> closesLast (script s)
      \<and> (requests_closed s \<longrightarrow> script s = [])
      \<and> (WExit \<in> set (workers s) \<longrightarrow> requests_closed s)
      \<and> (driver s \<noteq> DWait \<longrightarrow> wg s = 0 \<and> requests_closed s))"

definition phaseInv :: "gen_action list \<Rightarrow> pipeline \<Rightarrow> bool" where
  "phaseInv scr s =
     (\<not> crashed s
      \<and> handlers s = replicate (length (workers s)) True
      \<and> requests_cap s = length (workers s)
      \<and> GPanic \<notin> set (script s)
      \<and> (\<not> requests_closed s \<longrightarrow> script s \<noteq> [] \<and> last (script s) = GClose)
      \<and> (WExit \<in> set (workers s) \<longrightarrow> requests s = [])
      \<and> (results_closed s \<longleftrightarrow> driver s = DClosed \<or> driver s = DDone)
      \<and> (\<forall>rep. report s = Some rep \<longrightarrow> results_closed s \<and> rep = results s)
      \<and> (driver s = DDone \<longrightarrow> report s \<noteq> None)
      \<and> sent s @ sends (script s) = sends scr
      \<and> mset (sent s)
          = mset (requests s) + sum_list (map held (workers s)) + mset (map outcomeOp (results s)))"

subsection \<open>step2: priming write and start of a phase\<close>

text \<open>
  In the read phase \<open>step2\<close> first writes the fixed key, in a loop of its own for each
  backend, all four of the same shape:
  \<^verbatim>\<open>for i := 0; i < 7; i++ { clients := mustCreate...; _, err = <write>;
     if err != nil { continue }; ...; break }
   if err != nil { ...; os.Exit(1) }\<close>
  The database is outside the code: \<open>put i r\<close> is the error (or \<open>None\<close> for \<open>nil\<close>) that
  attempt \<open>i\<close> at writing \<open>r\<close> returns. The functions \<open>mustCreateClientsEtcdv2\<close>,
  \<open>mustCreateClientsEtcdv3\<close>, \<open>mustCreateConnsZk\<close> and \<open>mustCreateConnsConsul\<close> are
  called by \<open>step2\<close>, \<open>newReadHandlers\<close> and \<open>newWriteHandlers\<close> but are not among the
  source files: each is a parameter here, giving the number of clients or connections
  in the list it returns for its arguments (the endpoints and the count asked for; for
  etcdv3 the two counts \<open>totalConns\<close> and \<open>totalClients\<close>). The write goes through the
  first of them, \<open>clients[0]\<close>, which panics when the list is empty. The loop yields
  the attempts it made, in order, and how it ended: with the last value of \<open>err\<close>, or
  with a panic.
\<close>

record dialer =
  mustCreateClientsEtcdv2 :: "string list \<Rightarrow> int \<Rightarrow> nat"
  mustCreateClientsEtcdv3 :: "string list \<Rightarrow> int \<Rightarrow> int \<Rightarrow> nat"
  mustCreateConnsZk :: "string list \<Rightarrow> int \<Rightarrow> nat"
  mustCreateConnsConsul :: "string list \<Rightarrow> int \<Rightarrow> nat"


datatype prime_event = PrimeAttempt nat request "error option"


datatype prime_end = PrimeErr "error option" | PrimePanic

function primeLoop ::
  "(nat \<Rightarrow> request \<Rightarrow> error option) \<Rightarrow> nat \<Rightarrow> request \<Rightarrow> nat \<Rightarrow> error option
     \<Rightarrow> prime_event list \<times> prime_end" where
  "primeLoop put clients r i err =
     (if i < 7 then
        (if clients = 0 then ([], PrimePanic)
         else
           (case put i r of
              Some e \<Rightarrow>
                (case primeLoop put clients r (Suc i) (Some e) of
                   (evs, fin) \<Rightarrow> (PrimeAttempt i r (Some e) # evs, fin))
            | None \<Rightarrow> ([PrimeAttempt i r None], PrimeErr None)))
      else ([], PrimeErr err))"
  by pat_completeness simp
termination
  by (relation "measure (\<lambda>(put, clients, r, i, err). 7 - i)") simp_all

declare primeLoop.simps [simp del]

text \<open>
  \<open>newReadHandlers\<close> and \<open>newWriteHandlers\<close> make a slice of \<open>cfg.Step2.Clients\<close> handlers,
  all \<open>nil\<close> (\<open>make\<close> panics on a negative length), dial the backend and set one handler
  per connection, \<open>for i := range conns { rhs[i] = ... }\<close>: an index beyond the slice is
  a panic, and the entries after the last connection stay \<open>nil\<close>. A backend outside the
  four has no case and leaves every entry \<open>nil\<close>. \<open>fillHandlers\<close> is the loop; \<open>None\<close> is
  the panic.
\<close>

function fillHandlers :: "bool list \<Rightarrow> nat \<Rightarrow> nat \<Rightarrow> bool list option" where
  "fillHandlers rhs conns i =
     (if i < conns then
        (if i < length rhs then fillHandlers (rhs[i := True]) conns (Suc i) else None)
      else Some rhs)"
  by pat_completeness simp
termination
  by (relation "measure (\<lambda>(rhs, conns, i). conns - i)") simp_all

declare fillHandlers.simps [simp del]

definition newReadHandlers :: "dialer \<Rightarrow> Config \<Rightarrow> bool list option" where
  "newReadHandlers d cfg =
     (if Clients (Step2 cfg) < 0 then None
      else
        (let rhs = replicate (nat (Clients (Step2 cfg))) False in
         if Database cfg = ''etcdv2'' then
           fillHandlers rhs
             (mustCreateClientsEtcdv2 d (DatabaseEndpoints cfg) (Connections (Step2 cfg))) 0
         else if Database cfg = ''etcdv3'' then
           fillHandlers rhs
             (mustCreateClientsEtcdv3 d (DatabaseEndpoints cfg) (Connections (Step2 cfg))
                (Clients (Step2 cfg))) 0
         else if Database cfg = ''zk'' \<or> Database cfg = ''zookeeper'' then
           fillHandlers rhs
             (mustCreateConnsZk d (DatabaseEndpoints cfg) (Connections (Step2 cfg))) 0
         else if Database cfg = ''consul'' then
           fillHandlers rhs
             (mustCreateConnsConsul d (DatabaseEndpoints cfg) (Connections (Step2 cfg))) 0
         else Some rhs))"

text \<open>
  Where \<open>step2\<close> stands when it has set a phase going, or how it ended before: it
  returned (an error or \<open>nil\<close>), it left the process with \<open>os.Exit\<close>, it panicked, or it
  started the goroutines of the phase and waits in \<open>wg.Wait()\<close>. The priming attempts
  made on the way are kept.
\<close>

datatype phase_start =
    Returned "error option"
  | Exited int "prime_event list"
  | Panicked "prime_event list"
  | Started "prime_event list" pipeline


text \<open>
  The request of the priming write: \<open>Set(key, value)\<close>, \<open>OpPut(key, value)\<close>,
  \<open>Create("/"+key, vals.bytes[0])\<close>, \<open>Put(KVPair{key, vals.bytes[0]})\<close>. \<open>vals.strings[0]\<close>
  is read before the \<open>switch\<close>, \<open>vals.bytes[0]\<close> inside the loops for ZooKeeper and
  Consul; both panic on an empty corpus. A backend outside the four has no case in the
  \<open>switch\<close> and is not primed. \<open>primeClients\<close> is the number of clients each attempt of
  the loop dials: \<open>cfg.Step2.Connections\<close> are asked for, except for etcdv3, where one
  connection and one client are.
\<close>

definition primeRequest :: "Config \<Rightarrow> values_t \<Rightarrow> request option" where
  "primeRequest cfg vals =
     (let key = sameKey (nat (KeySize (Step2 cfg))) in
      case index (strings vals) 0 of
        None \<Rightarrow> None
      | Some v \<Rightarrow>
          if Database cfg = ''etcdv2'' then Some (etcdv2Op key v)
          else if Database cfg = ''etcdv3'' then Some (etcdv3Op (OpPut key v))
          else (case index (bytes vals) 0 of
                  None \<Rightarrow> None
                | Some b \<Rightarrow>
                    if Database cfg = ''zk'' \<or> Database cfg = ''zookeeper''
                    then Some (zkOp (''/'' @ key) b)
                    else Some (consulOp key b)))"

definition primeClients :: "dialer \<Rightarrow> Config \<Rightarrow> nat" where
  "primeClients d cfg =
     (if Database cfg = ''etcdv2'' then
        mustCreateClientsEtcdv2 d (DatabaseEndpoints cfg) (Connections (Step2 cfg))
      else if Database cfg = ''etcdv3'' then
        mustCreateClientsEtcdv3 d (DatabaseEndpoints cfg) 1 1
      else if Database cfg = ''zk'' \<or> Database cfg = ''zookeeper'' then
        mustCreateConnsZk d (DatabaseEndpoints cfg) (Connections (Step2 cfg))
      else mustCreateConnsConsul d (DatabaseEndpoints cfg) (Connections (Step2 cfg)))"

text \<open>
  The number of connections \<open>newReadHandlers\<close> and \<open>newWriteHandlers\<close> dial for the
  handlers (the same call in both): \<open>cfg.Step2.Connections\<close> are asked for, and for etcdv3
  \<open>cfg.Step2.Clients\<close> clients over them.
\<close>

definition handlerConns :: "dialer \<Rightarrow> Config \<Rightarrow> nat" where
  "handlerConns d cfg =
     (if Database cfg = ''etcdv2'' then
        mustCreateClientsEtcdv2 d (DatabaseEndpoints cfg) (Connections (Step2 cfg))
      else if Database cfg = ''etcdv3'' then
        mustCreateClientsEtcdv3 d (DatabaseEndpoints cfg) (Connections (Step2 cfg))
          (Clients (Step2 cfg))
      else if Database cfg = ''zk'' \<or> Database cfg = ''zookeeper'' then
        mustCreateConnsZk d (DatabaseEndpoints cfg) (Connections (Step2 cfg))
      else if Database cfg = ''consul'' then
        mustCreateConnsConsul d (DatabaseEndpoints cfg) (Connections (Step2 cfg))
      else 0)"

text \<open>
  After the priming the read phase makes the queue, \<open>make(chan request,
  cfg.Step2.Clients)\<close> (a negative size panics), builds the handlers and starts the
  workers and \<open>generateReads\<close>.
\<close>

definition startRead :: "dialer \<Rightarrow> Config \<Rightarrow> prime_event list \<Rightarrow> phase_start" where
  "startRead d cfg evs =
     (if Clients (Step2 cfg) < 0 then Panicked evs
      else (case newReadHandlers d cfg of
              None \<Rightarrow> Panicked evs
            | Some h \<Rightarrow>
                Started evs
                  (startPhase cfg h (generateReads cfg (sameKey (nat (KeySize (Step2 cfg))))))))"

definition step2_read ::
  "dialer \<Rightarrow> (nat \<Rightarrow> request \<Rightarrow> error option) \<Rightarrow> Config \<Rightarrow> values_t \<Rightarrow> phase_start" where
  "step2_read d put cfg vals =
     (if strings vals = [] then Panicked []
      else if \<not> validDatabase (Database cfg) then startRead d cfg []
      else
        (case primeRequest cfg vals of
           None \<Rightarrow> Panicked []
         | Some r \<Rightarrow>
            (case primeLoop put (primeClients d cfg) r 0 None of
               (evs, PrimePanic) \<Rightarrow> Panicked evs
             | (evs, PrimeErr (Some err)) \<Rightarrow> Exited 1 evs
             | (evs, PrimeErr None) \<Rightarrow> startRead d cfg evs)))"

text \<open>
  In the write phase \<open>make(chan request, cfg.Step2.Clients)\<close> comes first, then
  \<open>newWriteHandlers\<close>, which for ZooKeeper in same-key mode creates the key with the
  same loop of seven attempts and \<open>os.Exit(1)\<close> before it dials the connections of the
  handlers; \<open>rnd\<close> is the value \<open>randBytes\<close> gives it.
\<close>

datatype write_handlers = WriteHandlers "bool list" | WriteExited int | WritePanicked

fun filled :: "bool list option \<Rightarrow> write_handlers" where
  "filled None = WritePanicked"
| "filled (Some rhs) = WriteHandlers rhs"

definition newWriteHandlers ::
  "dialer \<Rightarrow> (nat \<Rightarrow> request \<Rightarrow> error option) \<Rightarrow> string \<Rightarrow> Config
     \<Rightarrow> prime_event list \<times> write_handlers" where
  "newWriteHandlers d put rnd cfg =
     (if Clients (Step2 cfg) < 0 then ([], WritePanicked)
      else
        (let rhs = replicate (nat (Clients (Step2 cfg))) False in
         if Database cfg = ''etcdv2'' then
           ([], filled (fillHandlers rhs
              (mustCreateClientsEtcdv2 d (DatabaseEndpoints cfg) (Connections (Step2 cfg))) 0))
         else if Database cfg = ''etcdv3'' then
           ([], filled (fillHandlers rhs
              (mustCreateClientsEtcdv3 d (DatabaseEndpoints cfg) (Connections (Step2 cfg))
                 (Clients (Step2 cfg))) 0))
         else if Database cfg = ''zk'' \<or> Database cfg = ''zookeeper'' then
           (case (if SameKey (Step2 cfg) then
                    primeLoop put
                      (mustCreateConnsZk d (DatabaseEndpoints cfg) (Connections (Step2 cfg)))
                      (zkOp (''/'' @ sameKey (nat (KeySize (Step2 cfg)))) rnd) 0 None
                  else ([], PrimeErr None)) of
              (evs, PrimePanic) \<Rightarrow> (evs, WritePanicked)
            | (evs, PrimeErr (Some err)) \<Rightarrow> (evs, WriteExited 1)
            | (evs, PrimeErr None) \<Rightarrow>
                (evs, filled (fillHandlers rhs
                   (mustCreateConnsZk d (DatabaseEndpoints cfg) (Connections (Step2 cfg))) 0)))
         else if Database cfg = ''consul'' then
           ([], filled (fillHandlers rhs
              (mustCreateConnsConsul d (DatabaseEndpoints cfg) (Connections (Step2 cfg))) 0))
         else ([], WriteHandlers rhs)))"

definition step2_write ::
  "dialer \<Rightarrow> (nat \<Rightarrow> request \<Rightarrow> error option) \<Rightarrow> string \<Rightarrow> Config \<Rightarrow> values_t
     \<Rightarrow> phase_start" where
  "step2_write d put rnd cfg vals =
     (if Clients (Step2 cfg) < 0 then Panicked []
      else (case newWriteHandlers d put rnd cfg of
              (evs, WriteExited code) \<Rightarrow> Exited code evs
            | (evs, WritePanicked) \<Rightarrow> Panicked evs
            | (evs, WriteHandlers h) \<Rightarrow> Started evs (startPhase cfg h (generateWrites cfg vals))))"

definition step2 ::
  "dialer \<Rightarrow> (nat \<Rightarrow> request \<Rightarrow> error option) \<Rightarrow> string \<Rightarrow> (error + (error + string) list)
     \<Rightarrow> Config \<Rightarrow> phase_start" where
  "step2 d put rnd walk cfg =
     (case newValues rnd walk cfg of
        Inl err \<Rightarrow> Returned (Some err)
      | Inr vals \<Rightarrow>
          if BenchType (Step2 cfg) = ''write'' then step2_write d put rnd cfg vals
          else if BenchType (Step2 cfg) = ''read'' then step2_read d put cfg vals
          else Returned None)"

subsection \<open>The control message and the broadcast\<close>

text \<open>
  \<open>agent.Request\<close> is generated from the protocol description, which is not among the
  source files: the record holds the fields the two files read or write. The two
  enumerations travel as numbers, so a value outside the named ones can arrive; it
  takes the \<open>default\<close> branches. The field \<open>Database\<close> of the request is written
  \<open>Database_req\<close> here, the name being taken by the configuration.
\<close>

datatype Request_Operation =
    Request_Start | Request_Restart | Request_Stop | Request_Operation_other int

datatype Request_Database =
    Request_etcdv2 | Request_etcdv3 | Request_ZooKeeper | Request_Consul
  | Request_Database_other int

record Request =
  Operation :: Request_Operation
  Database_req :: Request_Database
  PeerIPString :: string
  ServerIndex :: "32 word"
  ZookeeperMyID :: "32 word"
  EtcdCompression :: string
  ZookeeperMaxClientCnxns :: int
  ZookeeperSnapCount :: int
  TestName :: string
  GoogleCloudProjectName :: string
  GoogleCloudStorageKey :: string
  GoogleCloudStorageBucketName :: string
  GoogleCloudStorageSubDirectory :: string

text \<open>
  \<open>sendReq\<close> stamps the request with the peer's index, dials the agent and calls
  \<open>Transfer\<close> with a deadline of 15 seconds. The network is outside the code: \<open>Dial\<close>
  gives the error of \<open>grpc.Dial\<close> for an endpoint (or \<open>None\<close>), \<open>Call\<close> the error of
  \<open>cli.Transfer\<close> for an endpoint and a request, the deadline included.
\<close>

record network =
  Dial :: "string \<Rightarrow> error option"
  Call :: "string \<Rightarrow> Request \<Rightarrow> error option"

definition sendReq :: "network \<Rightarrow> string \<Rightarrow> Request \<Rightarrow> nat \<Rightarrow> error option" where
  "sendReq net ep req i =
     (let req' = req\<lparr>ServerIndex := of_nat i, ZookeeperMyID := of_nat (i + 1)\<rparr> in
      case Dial net ep of
        Some err \<Rightarrow> Some err
      | None \<Rightarrow>
          (case Call net ep req' of
             Some err \<Rightarrow> Some err
           | None \<Rightarrow> None))"

text \<open>
  \<open>bcastReq\<close> starts one goroutine per peer; each sends one message, its error on
  \<open>errc\<close> or a token on \<open>donec\<close> (both unbuffered), and the loop
  \<^verbatim>\<open>for cnt := 0; cnt != len(cfg.PeerIPs); cnt++ { select { ... } }\<close>
  receives one message per round. In which order the messages get through is up to
  the scheduler: \<open>order\<close> lists the peers in the order in which their messages are
  received. A goroutine whose index is outside \<open>cfg.AgentEndpoints\<close> panics. The loop
  blocks for good when it is due a message that no goroutine sends. The result of a
  return carries, besides the returned error, the errors collected and the number of
  messages received.
\<close>

datatype peer_msg = OnDonec | OnErrc error

datatype bcast_result =
    BcastReturned "error option" "error list" nat
  | BcastBlocked
  | BcastPanicked

definition peerTask :: "network \<Rightarrow> Config \<Rightarrow> Request \<Rightarrow> nat \<Rightarrow> peer_msg option" where
  "peerTask net cfg req i =
     (case index (AgentEndpoints cfg) (int i) of
        None \<Rightarrow> None
      | Some ep \<Rightarrow>
          (case sendReq net ep req i of
             Some err \<Rightarrow> Some (OnErrc err)
           | None \<Rightarrow> Some OnDonec))"

definition firstError :: "error list \<Rightarrow> error option" where
  "firstError errs = (case errs of [] \<Rightarrow> None | e # rest \<Rightarrow> Some e)"

fun collect :: "nat \<Rightarrow> nat \<Rightarrow> peer_msg option list \<Rightarrow> error list \<Rightarrow> bcast_result" where
  "collect cnt n [] errs =
     (if cnt = n then BcastReturned (firstError errs) errs cnt else BcastBlocked)"
| "collect cnt n (m # ms) errs =
     (if cnt = n then BcastReturned (firstError errs) errs cnt
      else (case m of
              None \<Rightarrow> BcastPanicked
            | Some OnDonec \<Rightarrow> collect (Suc cnt) n ms errs
            | Some (OnErrc err) \<Rightarrow> collect (Suc cnt) n ms (errs @ [err])))"

definition bcastReq ::
  "network \<Rightarrow> Config \<Rightarrow> Request \<Rightarrow> Request_Operation \<Rightarrow> nat list \<Rightarrow> bcast_result" where
  "bcastReq net cfg req0 op order =
     collect 0 (length (PeerIPs cfg))
       (map (peerTask net cfg (req0\<lparr>Operation := op\<rparr>)) order) []"

definition step1 :: "network \<Rightarrow> Config \<Rightarrow> Request \<Rightarrow> nat list \<Rightarrow> bcast_result" where
  "step1 net cfg req0 order = bcastReq net cfg req0 Request_Start order"

definition step3 :: "network \<Rightarrow> Config \<Rightarrow> Request \<Rightarrow> nat list \<Rightarrow> bcast_result" where
  "step3 net cfg req0 order = bcastReq net cfg req0 Request_Stop order"

text \<open>What peer \<open>i\<close> answers in a broadcast of \<open>op\<close>.\<close>

definition peerAnswer ::
  "network \<Rightarrow> Config \<Rightarrow> Request \<Rightarrow> Request_Operation \<Rightarrow> nat \<Rightarrow> error option" where
  "peerAnswer net cfg req0 op i =
     sendReq net (AgentEndpoints cfg ! i) (req0\<lparr>Operation := op\<rparr>) i"

subsection \<open>The agent: Transfer\<close>

text \<open>
  The agent keeps one \<open>transporterServer\<close>: the request of the last \<open>Start\<close>, the
  command of the supervised process (\<open>nil\<close> until a process was started), its log file
  and its process id. An \<open>exec.Cmd\<close> is its path and its argument list (the path first);
  an open file is named by its path. The package-level path variables, which
  \<open>Transfer\<close> rewrites under the working directory, form \<open>globals\<close>.
\<close>

record Cmd =
  Path :: string
  Args :: "string list"

record transporterServer =
  req :: Request
  cmd :: "Cmd option"
  logfile :: "string option"
  pid :: int

record globals =
  WorkingDirectory :: string
  shell :: string
  agentLogPath :: string
  databaseLogPath :: string
  monitorLogPath :: string
  etcdBinaryPath :: string
  consulBinaryPath :: string
  etcdDataDir :: string
  consulDataDir :: string
  zkWorkingDir :: string
  zkDataDir :: string

text \<open>
  The operating system and the libraries are outside the code. \<open>system\<close> gives the
  result of each call the agent makes: the error (or \<open>None\<close>) of \<open>os.Stat\<close>,
  \<open>os.RemoveAll\<close>, \<open>os.Chdir\<close>, \<open>os.MkdirAll\<close>, \<open>toFile\<close> (content, then path) and
  \<open>syscall.Kill\<close> with \<open>SIGTERM\<close>; the file or the error of \<open>openToAppend\<close>; the process
  id or the error of \<open>cmd.Start\<close>; the error of \<open>remotestorage.NewGoogleCloudStorage\<close>
  and of attempt \<open>k\<close> of \<open>UploadFile\<close> (bucket, source, destination); and the path
  functions \<open>filepath.Join\<close> and \<open>filepath.Base\<close>.
\<close>

record system =
  Stat :: "string \<Rightarrow> error option"
  RemoveAll :: "string \<Rightarrow> error option"
  Chdir :: "string \<Rightarrow> error option"
  MkdirAll :: "string \<Rightarrow> error option"
  toFile :: "string \<Rightarrow> string \<Rightarrow> error option"
  openToAppend :: "string \<Rightarrow> error + string"
  Start :: "Cmd \<Rightarrow> error + int"
  Kill :: "int \<Rightarrow> error option"
  NewGoogleCloudStorage :: "string \<Rightarrow> string \<Rightarrow> error option"
  UploadFile :: "string \<Rightarrow> string \<Rightarrow> string \<Rightarrow> nat \<Rightarrow> error option"
  filepath_Join :: "string \<Rightarrow> string \<Rightarrow> string"
  filepath_Base :: "string \<Rightarrow> string"

text \<open>
  What a call of \<open>Transfer\<close> does to the world, in order. Every call to the system is
  recorded when it is made, whether it then fails or not. \<open>GoWait\<close> is the goroutine
  that waits for the process to exit, \<open>GoMonitor\<close> the monitor goroutine, \<open>NotifyStopped\<close>
  the send on \<open>databaseStopped\<close>. Log lines are not recorded.
\<close>

datatype effect =
    WriteFile string string
  | StatFile string
  | RemoveDir string
  | ChangeDir string
  | MakeDir string
  | OpenLog string
  | StartProcess Cmd
  | GoWait int
  | Sleep nat
  | Signal int
  | CloseLog string
  | NotifyStopped
  | GoMonitor int

datatype transfer_return = Responded bool | Failed error | Panic

record transfer_result =
  returned :: transfer_return
  server :: transporterServer
  paths :: globals
  effects :: "effect list"

definition finish :: "transfer_return \<Rightarrow> transporterServer \<Rightarrow> globals \<Rightarrow> transfer_result" where
  "finish r t g = \<lparr>returned = r, server = t, paths = g, effects = []\<rparr>"

definition after :: "effect list \<Rightarrow> transfer_result \<Rightarrow> transfer_result" where
  "after es res = res\<lparr>effects := es @ effects res\<rparr>"

text \<open>Lines 164 to 191: the path variables move under the working directory, once.\<close>

definition underWorkingDirectory :: "system \<Rightarrow> string \<Rightarrow> string \<Rightarrow> string" where
  "underWorkingDirectory sys wd p = (if \<not> HasPrefix p wd then filepath_Join sys wd p else p)"

definition rebase :: "system \<Rightarrow> globals \<Rightarrow> globals" where
  "rebase sys g =
     g\<lparr>etcdDataDir := underWorkingDirectory sys (WorkingDirectory g) (etcdDataDir g),
       consulDataDir := underWorkingDirectory sys (WorkingDirectory g) (consulDataDir g),
       zkWorkingDir := underWorkingDirectory sys (WorkingDirectory g) (zkWorkingDir g),
       zkDataDir := underWorkingDirectory sys (WorkingDirectory g) (zkDataDir g),
       databaseLogPath := underWorkingDirectory sys (WorkingDirectory g) (databaseLogPath g),
       monitorLogPath := underWorkingDirectory sys (WorkingDirectory g) (monitorLogPath g)\<rparr>"

text \<open>
  The last part of every start: \<open>cmd.Start()\<close>, then the record is updated and the
  goroutine that waits for the process is started. \<open>exec.Command(name, args...)\<close> gives
  the command with the path \<open>name\<close> and the arguments \<open>name # args\<close>.
\<close>

definition command :: "string \<Rightarrow> string list \<Rightarrow> Cmd" where
  "command name args = \<lparr>Path = name, Args = name # args\<rparr>"

definition launch :: "system \<Rightarrow> globals \<Rightarrow> transporterServer \<Rightarrow> Cmd \<Rightarrow> transfer_result" where
  "launch sys g t c =
     after [StartProcess c]
       (case Start sys c of
          Inl err \<Rightarrow> finish (Failed err) t g
        | Inr p \<Rightarrow>
            after [GoWait p, GoMonitor p]
              (finish (Responded True) (t\<lparr>cmd := Some c, pid := p\<rparr>) g))"

text \<open>The three backends of \<open>Start\<close>.\<close>

definition etcdFlags :: "globals \<Rightarrow> string list \<Rightarrow> nat \<Rightarrow> string list" where
  "etcdFlags g peerIPs i =
     (let names = map (\<lambda>k. ''etcd-'' @ itoa (k + 1)) [0 ..< length peerIPs];
          clientURLs = map (\<lambda>u. ''http://'' @ u @ '':2379'') peerIPs;
          peerURLs = map (\<lambda>u. ''http://'' @ u @ '':2380'') peerIPs;
          members = map (\<lambda>k. names ! k @ ''='' @ peerURLs ! k) [0 ..< length peerIPs];
          clusterStr = Join members '',''
      in [''--name'', names ! i,
          ''--data-dir'', etcdDataDir g,
          ''--listen-client-urls'', clientURLs ! i,
          ''--advertise-client-urls'', clientURLs ! i,
          ''--listen-peer-urls'', peerURLs ! i,
          ''--initial-advertise-peer-urls'', peerURLs ! i,
          ''--initial-cluster-token'', ''etcd_token'',
          ''--initial-cluster'', clusterStr,
          ''--initial-cluster-state'', ''new''])"

definition startEtcd ::
  "system \<Rightarrow> globals \<Rightarrow> transporterServer \<Rightarrow> string list \<Rightarrow> transfer_result" where
  "startEtcd sys g t peerIPs =
     after [StatFile (etcdBinaryPath g)]
       (case Stat sys (etcdBinaryPath g) of
          Some err \<Rightarrow> finish (Failed err) t g
        | None \<Rightarrow>
            after [RemoveDir (etcdDataDir g)]
              (case RemoveAll sys (etcdDataDir g) of
                 Some err \<Rightarrow> finish (Failed err) t g
               | None \<Rightarrow>
                   after [OpenLog (databaseLogPath g)]
                     (case openToAppend sys (databaseLogPath g) of
                        Inl err \<Rightarrow> finish (Failed err) t g
                      | Inr f \<Rightarrow>
                          if unat (ServerIndex (req t)) < length peerIPs
                          then launch sys g (t\<lparr>logfile := Some f\<rparr>)
                                 (command (etcdBinaryPath g)
                                    (etcdFlags g peerIPs (unat (ServerIndex (req t)))))
                          else finish Panic (t\<lparr>logfile := Some f\<rparr>) g)))"

definition newline :: string where
  "newline = [CHR 0x0A]"

definition zkConfig :: "globals \<Rightarrow> Request \<Rightarrow> string list \<Rightarrow> string" where
  "zkConfig g r peerIPs =
     ''tickTime=2000'' @ newline
     @ ''dataDir='' @ zkDataDir g @ newline
     @ ''clientPort=2181'' @ newline
     @ ''initLimit=5'' @ newline
     @ ''syncLimit=5'' @ newline
     @ ''maxClientCnxns='' @ itoaInt (ZookeeperMaxClientCnxns r) @ newline
     @ ''snapCount='' @ itoaInt (ZookeeperSnapCount r) @ newline
     @ concat (map (\<lambda>k. ''server.'' @ itoa (k + 1) @ ''='' @ peerIPs ! k @ '':2888:3888'' @ newline)
                 [0 ..< length peerIPs])
     @ newline"

definition zkFlagString :: string where
  "zkFlagString = ''-cp zookeeper-3.4.8.jar:lib/slf4j-api-1.6.1.jar:lib/slf4j-log4j12-1.6.1.jar:lib/log4j-1.2.16.jar:conf org.apache.zookeeper.server.quorum.QuorumPeerMain''"

definition startZooKeeper ::
  "system \<Rightarrow> globals \<Rightarrow> transporterServer \<Rightarrow> string list \<Rightarrow> transfer_result" where
  "startZooKeeper sys g t peerIPs =
     (let idFilePath = filepath_Join sys (zkDataDir g) ''myid'';
          myid = itoa (unat (ZookeeperMyID (req t)));
          configFilePath = filepath_Join sys (zkWorkingDir g) ''zookeeper.config'';
          zc = zkConfig g (req t) peerIPs
      in
      after [StatFile ''/usr/bin/java'']
       (case Stat sys ''/usr/bin/java'' of
          Some err \<Rightarrow> finish (Failed err) t g
        | None \<Rightarrow>
          after [ChangeDir (zkWorkingDir g)]
           (case Chdir sys (zkWorkingDir g) of
              Some err \<Rightarrow> finish (Failed err) t g
            | None \<Rightarrow>
              after [MakeDir (zkDataDir g)]
               (case MkdirAll sys (zkDataDir g) of
                  Some err \<Rightarrow> finish (Failed err) t g
                | None \<Rightarrow>
                  after [WriteFile idFilePath myid]
                   (case toFile sys myid idFilePath of
                      Some err \<Rightarrow> finish (Failed err) t g
                    | None \<Rightarrow>
                      after [WriteFile configFilePath zc]
                       (case toFile sys zc configFilePath of
                          Some err \<Rightarrow> finish (Failed err) t g
                        | None \<Rightarrow>
                          after [OpenLog (databaseLogPath g)]
                           (case openToAppend sys (databaseLogPath g) of
                              Inl err \<Rightarrow> finish (Failed err) t g
                            | Inr f \<Rightarrow>
                                launch sys g (t\<lparr>logfile := Some f\<rparr>)
                                  (command (shell g)
                                     [''-c'', ''/usr/bin/java'' @ '' '' @ zkFlagString
                                               @ '' '' @ configFilePath]))))))))"

definition consulFlags :: "globals \<Rightarrow> string list \<Rightarrow> nat \<Rightarrow> string list" where
  "consulFlags g peerIPs i =
     (if i = 0
      then [''agent'', ''-server'', ''-data-dir'', consulDataDir g,
            ''-bind'', peerIPs ! i, ''-client'', peerIPs ! i,
            ''-bootstrap-expect'', ''3'']
      else [''agent'', ''-server'', ''-data-dir'', consulDataDir g,
            ''-bind'', peerIPs ! i, ''-client'', peerIPs ! i,
            ''-join'', peerIPs ! 0])"

definition startConsul ::
  "system \<Rightarrow> globals \<Rightarrow> transporterServer \<Rightarrow> string list \<Rightarrow> transfer_result" where
  "startConsul sys g t peerIPs =
     after [StatFile (consulBinaryPath g)]
       (case Stat sys (consulBinaryPath g) of
          Some err \<Rightarrow> finish (Failed err) t g
        | None \<Rightarrow>
            after [RemoveDir (consulDataDir g)]
              (case RemoveAll sys (consulDataDir g) of
                 Some err \<Rightarrow> finish (Failed err) t g
               | None \<Rightarrow>
                   after [OpenLog (databaseLogPath g)]
                     (case openToAppend sys (databaseLogPath g) of
                        Inl err \<Rightarrow> finish (Failed err) t g
                      | Inr f \<Rightarrow>
                          if unat (ServerIndex (req t)) < length peerIPs
                          then launch sys g (t\<lparr>logfile := Some f\<rparr>)
                                 (command (consulBinaryPath g)
                                    (consulFlags g peerIPs (unat (ServerIndex (req t)))))
                          else finish Panic (t\<lparr>logfile := Some f\<rparr>) g)))"

text \<open>
  \<open>Restart\<close> runs the recorded command again, on a newly opened log file; \<open>Stop\<close>
  waits three seconds, signals the recorded process, closes the log file and tells
  the monitor. Both begin (after the wait, for \<open>Stop\<close>) with \<open>if t.cmd == nil\<close>.
\<close>

definition restart ::
  "system \<Rightarrow> globals \<Rightarrow> transporterServer \<Rightarrow> Request \<Rightarrow> transfer_result" where
  "restart sys g t r =
     (case cmd t of
        None \<Rightarrow> finish (Failed (Error ''nil command'')) t g
      | Some old \<Rightarrow>
          after (if Database_req r = Request_ZooKeeper then [ChangeDir (zkWorkingDir g)] else [])
            (case (if Database_req r = Request_ZooKeeper then Chdir sys (zkWorkingDir g) else None) of
               Some err \<Rightarrow> finish (Failed err) t g
             | None \<Rightarrow>
                 after [OpenLog (databaseLogPath g)]
                   (case openToAppend sys (databaseLogPath g) of
                      Inl err \<Rightarrow> finish (Failed err) t g
                    | Inr f \<Rightarrow>
                        (case Args old of
                           [] \<Rightarrow> finish Panic (t\<lparr>logfile := Some f\<rparr>) g
                         | a # args \<Rightarrow>
                             launch sys g (t\<lparr>logfile := Some f\<rparr>) (command (Path old) args)))))"

definition stop :: "system \<Rightarrow> globals \<Rightarrow> transporterServer \<Rightarrow> transfer_result" where
  "stop sys g t =
     after [Sleep 3]
       (case cmd t of
          None \<Rightarrow> finish (Failed (Error ''nil command'')) t g
        | Some c \<Rightarrow>
            after [Signal (pid t)]
              (case Kill sys (pid t) of
                 Some err \<Rightarrow> finish (Failed err) t g
               | None \<Rightarrow>
                   after ((case logfile t of None \<Rightarrow> [] | Some f \<Rightarrow> [CloseLog f]) @ [NotifyStopped])
                     (finish (Responded True) t g)))"

text \<open>
  \<open>Transfer\<close>. The peer list is split off the incoming request; a \<open>Start\<close> overwrites
  the recorded request before anything else is looked at; the key file is written from
  the recorded request; then the operation is carried out.
\<close>

definition gcloudKeyPath :: "system \<Rightarrow> globals \<Rightarrow> string" where
  "gcloudKeyPath sys g = filepath_Join sys (WorkingDirectory g) ''gcloud-key.json''"

definition operate ::
  "system \<Rightarrow> globals \<Rightarrow> transporterServer \<Rightarrow> Request \<Rightarrow> string list \<Rightarrow> transfer_result" where
  "operate sys g t r peerIPs =
     (case Operation r of
        Request_Start \<Rightarrow>
          (case Database_req (req t) of
             Request_etcdv2 \<Rightarrow> startEtcd sys g t peerIPs
           | Request_etcdv3 \<Rightarrow> startEtcd sys g t peerIPs
           | Request_ZooKeeper \<Rightarrow> startZooKeeper sys g t peerIPs
           | Request_Consul \<Rightarrow> startConsul sys g t peerIPs
           | Request_Database_other n \<Rightarrow> finish (Failed (Error ''unknown database'')) t g)
      | Request_Restart \<Rightarrow> restart sys g t r
      | Request_Stop \<Rightarrow> stop sys g t
      | Request_Operation_other n \<Rightarrow> finish (Failed (Error ''Not implemented'')) t g)"

definition Transfer ::
  "system \<Rightarrow> globals \<Rightarrow> transporterServer \<Rightarrow> Request \<Rightarrow> transfer_result" where
  "Transfer sys g0 t0 r =
     (let peerIPs = Split (PeerIPString r) ''___'';
          g = (if Operation r = Request_Start \<or> Operation r = Request_Restart
               then rebase sys g0 else g0);
          t = (if Operation r = Request_Start then t0\<lparr>req := r\<rparr> else t0)
      in if GoogleCloudStorageKey (req t) \<noteq> [] then
           after [WriteFile (gcloudKeyPath sys g) (GoogleCloudStorageKey (req t))]
             (case toFile sys (GoogleCloudStorageKey (req t)) (gcloudKeyPath sys g) of
                Some err \<Rightarrow> finish (Failed err) t g
              | None \<Rightarrow> operate sys g t r peerIPs)
         else operate sys g t r peerIPs)"

text \<open>The effects that touch a process or its log: the actions a failed call must not take.\<close>

fun processAction :: "effect \<Rightarrow> bool" where
  "processAction (StartProcess c) = True"
| "processAction (Signal p) = True"
| "processAction (CloseLog f) = True"
| "processAction NotifyStopped = True"
| "processAction (GoWait p) = True"
| "processAction (GoMonitor p) = True"
| "processAction e = False"

subsection \<open>The agent: upload after Stop\<close>

text \<open>
  When the monitor goroutine receives from \<open>databaseStopped\<close> it uploads the database
  log, the monitor log and the agent log, each with the loop
  \<^verbatim>\<open>for k := 0; k < 30; k++ { if uerr = u.UploadFile(...); uerr != nil {
     log.Println(uerr); time.Sleep(2 * time.Second); continue } else { break } }\<close>
  and returns. If the storage client cannot be made it returns at once.
\<close>

datatype upload_event = UploadAttempt string string string | Delay nat

function uploadLoop ::
  "(nat \<Rightarrow> error option) \<Rightarrow> string \<Rightarrow> string \<Rightarrow> string \<Rightarrow> nat \<Rightarrow> upload_event list" where
  "uploadLoop up bucket src dst k =
     (if k < 30 then
        (case up k of
           Some uerr \<Rightarrow>
             [UploadAttempt bucket src dst, Delay 2] @ uploadLoop up bucket src dst (Suc k)
         | None \<Rightarrow> [UploadAttempt bucket src dst])
      else [])"
  by pat_completeness simp
termination
  by (relation "measure (\<lambda>(up, bucket, src, dst, k). 30 - k)") simp_all

declare uploadLoop.simps [simp del]

definition dstPath :: "system \<Rightarrow> Request \<Rightarrow> string \<Rightarrow> string" where
  "dstPath sys r p =
     filepath_Join sys (GoogleCloudStorageSubDirectory r)
       (if \<not> HasPrefix (filepath_Base sys p) (TestName r)
        then TestName r @ ''-'' @ itoa (unat (ServerIndex r + 1)) @ ''-'' @ filepath_Base sys p
        else filepath_Base sys p)"

definition uploadOne :: "system \<Rightarrow> Request \<Rightarrow> string \<Rightarrow> upload_event list" where
  "uploadOne sys r src =
     uploadLoop (UploadFile sys (GoogleCloudStorageBucketName r) src (dstPath sys r src))
       (GoogleCloudStorageBucketName r) src (dstPath sys r src) 0"

definition uploadPhase :: "system \<Rightarrow> globals \<Rightarrow> transporterServer \<Rightarrow> upload_event list" where
  "uploadPhase sys g t =
     (case NewGoogleCloudStorage sys (GoogleCloudStorageKey (req t)) (GoogleCloudProjectName (req t)) of
        Some err \<Rightarrow> []
      | None \<Rightarrow>
          uploadOne sys (req t) (databaseLogPath g)
          @ uploadOne sys (req t) (monitorLogPath g)
          @ uploadOne sys (req t) (agentLogPath g))"

text \<open>Counting in a list of upload events, and the shape of \<open>n\<close> failed attempts.\<close>

fun isAttempt :: "upload_event \<Rightarrow> bool" where
  "isAttempt (UploadAttempt b s d) = True"
| "isAttempt (Delay n) = False"

definition attempts :: "upload_event list \<Rightarrow> nat" where
  "attempts evs = length (filter isAttempt evs)"

definition delays :: "upload_event list \<Rightarrow> nat" where
  "delays evs = length (filter (\<lambda>e. e = Delay 2) evs)"

fun failedAttempts :: "nat \<Rightarrow> string \<Rightarrow> string \<Rightarrow> string \<Rightarrow> upload_event list" where
  "failedAttempts 0 bucket src dst = []"
| "failedAttempts (Suc n) bucket src dst =
     [UploadAttempt bucket src dst, Delay 2] @ failedAttempts n bucket src dst"

subsection \<open>Concrete inputs\<close>

text \<open>Small configurations and corpora on which the theorems are instantiated.\<close>

definition oneValue :: values_t where
  "oneValue = \<lparr>bytes = [''v''], strings = [''v''], sampleSize = 1\<rparr>"

definition emptyValues :: values_t where
  "emptyValues = \<lparr>bytes = [], strings = [], sampleSize = 0\<rparr>"

definition writeConfig :: "string \<Rightarrow> int \<Rightarrow> int \<Rightarrow> int \<Rightarrow> int \<Rightarrow> Config" where
  "writeConfig db n clients keysize cycle =
     \<lparr>Database = db, PeerIPs = [], PeerIPString_cfg = [], AgentPort = 3500,
      DatabasePort = 2379, AgentEndpoints = [], DatabaseEndpoints = [],
      Step2 = \<lparr>BenchType = ''write'', TotalRequests = n, Clients = clients,
                Connections = clients, KeySize = keysize, ValueSize = 1,
                ValueTestDataPath = [], SameKey = False, LocalRead = False,
                RequestIntervalMs = 0, Etcdv3CompactionCycle = cycle\<rparr>\<rparr>"

definition sameKeyWrites :: Config where
  "sameKeyWrites =
     \<lparr>Database = ''zookeeper'', PeerIPs = [], PeerIPString_cfg = [], AgentPort = 3500,
      DatabasePort = 2181, AgentEndpoints = [], DatabaseEndpoints = [],
      Step2 = \<lparr>BenchType = ''write'', TotalRequests = 2, Clients = 1,
                Connections = 1, KeySize = 2, ValueSize = 1,
                ValueTestDataPath = [], SameKey = True, LocalRead = False,
                RequestIntervalMs = 0, Etcdv3CompactionCycle = 0\<rparr>\<rparr>"

definition negativeKeySize :: Config where
  "negativeKeySize =
     \<lparr>Database = ''etcdv2'', PeerIPs = [], PeerIPString_cfg = [], AgentPort = 3500,
      DatabasePort = 2379, AgentEndpoints = [], DatabaseEndpoints = [],
      Step2 = \<lparr>BenchType = ''write'', TotalRequests = 1, Clients = 1,
                Connections = 1, KeySize = - 1, ValueSize = 1,
                ValueTestDataPath = [], SameKey = True, LocalRead = False,
                RequestIntervalMs = 0, Etcdv3CompactionCycle = 0\<rparr>\<rparr>"

text \<open>
  A dialer that returns what it is asked for: as many clients as \<open>total\<close> (for etcdv3 as
  many as \<open>totalClients\<close>).
\<close>

definition plainDialer :: dialer where
  "plainDialer =
     \<lparr>mustCreateClientsEtcdv2 = (\<lambda>endpoints total. nat total),
      mustCreateClientsEtcdv3 = (\<lambda>endpoints totalConns totalClients. nat totalClients),
      mustCreateConnsZk = (\<lambda>endpoints total. nat total),
      mustCreateConnsConsul = (\<lambda>endpoints total. nat total)\<rparr>"

definition failingFirst :: "nat \<Rightarrow> nat \<Rightarrow> request \<Rightarrow> error option" where
  "failingFirst n i r = (if i < n then Some (Error ''unavailable'') else None)"

definition readConfig :: "string \<Rightarrow> int \<Rightarrow> int \<Rightarrow> int \<Rightarrow> Config" where
  "readConfig db n clients keysize =
     \<lparr>Database = db, PeerIPs = [], PeerIPString_cfg = [], AgentPort = 3500,
      DatabasePort = 2379, AgentEndpoints = [], DatabaseEndpoints = [],
      Step2 = \<lparr>BenchType = ''read'', TotalRequests = n, Clients = clients,
                Connections = clients, KeySize = keysize, ValueSize = 1,
                ValueTestDataPath = [], SameKey = False, LocalRead = False,
                RequestIntervalMs = 0, Etcdv3CompactionCycle = 0\<rparr>\<rparr>"




text \<open>
  A phase of one operation \<open>r\<close> with one worker: its first state, and the state in which
  the driver has finished. \<open>unstaffed\<close> is the same phase when the only handler is
  \<open>nil\<close>, and \<open>unstaffedCrash\<close> the state in which its worker has panicked.
\<close>

definition oneOp :: "request \<Rightarrow> pipeline" where
  "oneOp r =
     \<lparr>script = [GSend r, GClose], sent = [], requests = [],
      requests_cap = 1, requests_closed = False, workers = [WRecv], handlers = [True],
      compactions = 0, wg = 1,
      results = [], results_closed = False, report = None, driver = DWait, crashed = False\<rparr>"

definition oneOpDone :: "request \<Rightarrow> pipeline" where
  "oneOpDone r =
     \<lparr>script = [], sent = [r], requests = [],
      requests_cap = 1, requests_closed = True, workers = [WExit], handlers = [True],
      compactions = 0, wg = 0,
      results = [Outcome r False], results_closed = True,
      report = Some [Outcome r False], driver = DDone, crashed = False\<rparr>"

definition unstaffed :: pipeline where
  "unstaffed = (oneOp (etcdv2Op ''0'' ''v''))\<lparr>handlers := [False]\<rparr>"

definition unstaffedCrash :: pipeline where
  "unstaffedCrash =
     unstaffed\<lparr>script := [GClose], sent := [etcdv2Op ''0'' ''v''],
               workers := [WExec (etcdv2Op ''0'' ''v'')], crashed := True\<rparr>"

text \<open>
  A write phase over a data directory without files, and one with a client but no
  connection.
\<close>

definition emptyDirectory :: Config where
  "emptyDirectory =
     \<lparr>Database = ''etcdv2'', PeerIPs = [], PeerIPString_cfg = [], AgentPort = 3500,
      DatabasePort = 2379, AgentEndpoints = [], DatabaseEndpoints = [],
      Step2 = \<lparr>BenchType = ''write'', TotalRequests = 1, Clients = 1,
                Connections = 1, KeySize = 1, ValueSize = 1,
                ValueTestDataPath = ''data'', SameKey = False, LocalRead = False,
                RequestIntervalMs = 0, Etcdv3CompactionCycle = 0\<rparr>\<rparr>"

definition noConnection :: Config where
  "noConnection =
     \<lparr>Database = ''etcdv2'', PeerIPs = [], PeerIPString_cfg = [], AgentPort = 3500,
      DatabasePort = 2379, AgentEndpoints = [], DatabaseEndpoints = [],
      Step2 = \<lparr>BenchType = ''write'', TotalRequests = 1, Clients = 1,
                Connections = 0, KeySize = 1, ValueSize = 1,
                ValueTestDataPath = [], SameKey = False, LocalRead = False,
                RequestIntervalMs = 0, Etcdv3CompactionCycle = 0\<rparr>\<rparr>"






definition threePeers :: Config where
  "threePeers = CommandFunc_endpoints
     ((writeConfig ''etcdv3'' 1 1 1 0)\<lparr>PeerIPs := [''10.0.0.1'', ''10.0.0.2'', ''10.0.0.3'']\<rparr>)"

definition someRequest :: Request where
  "someRequest =
     \<lparr>Operation = Request_Start, Database_req = Request_etcdv3, PeerIPString = ''10.0.0.1___10.0.0.2___10.0.0.3'',
      ServerIndex = 0, ZookeeperMyID = 0, EtcdCompression = [], ZookeeperMaxClientCnxns = 0,
      ZookeeperSnapCount = 0, TestName = ''t'', GoogleCloudProjectName = [],
      GoogleCloudStorageKey = [], GoogleCloudStorageBucketName = [],
      GoogleCloudStorageSubDirectory = []\<rparr>"

definition onePeerDown :: network where
  "onePeerDown =
     \<lparr>Dial = (\<lambda>ep. None),
      Call = (\<lambda>ep r. if ep = ''10.0.0.2:3500'' then Some (Error ''unavailable'') else None)\<rparr>"

definition allPeersDown :: network where
  "allPeersDown = \<lparr>Dial = (\<lambda>ep. None), Call = (\<lambda>ep r. Some (Error ''unavailable''))\<rparr>"

definition allPeersUp :: network where
  "allPeersUp = \<lparr>Dial = (\<lambda>ep. None), Call = (\<lambda>ep r. None)\<rparr>"


definition flakyStorage :: system where
  "flakyStorage =
     \<lparr>Stat = (\<lambda>p. None), RemoveAll = (\<lambda>p. None), Chdir = (\<lambda>p. None), MkdirAll = (\<lambda>p. None),
      toFile = (\<lambda>txt p. None), openToAppend = (\<lambda>p. Inr p), Start = (\<lambda>c. Inr 4242),
      Kill = (\<lambda>p. None), NewGoogleCloudStorage = (\<lambda>k p. None),
      UploadFile = (\<lambda>b src dst k.
         if src = ''database.log'' then Some (Error ''timeout'')
         else if src = ''monitor.csv'' \<and> k < 29 then Some (Error ''timeout'')
         else None),
      filepath_Join = (\<lambda>a b. a @ ''/'' @ b), filepath_Base = (\<lambda>p. p)\<rparr>"

definition readOnlyDisk :: system where
  "readOnlyDisk = flakyStorage\<lparr>toFile := (\<lambda>txt p. Some (Error ''read-only file system''))\<rparr>"

definition agentGlobals :: globals where
  "agentGlobals =
     \<lparr>WorkingDirectory = ''/home/agent'', shell = ''sh'', agentLogPath = ''agent.log'',
      databaseLogPath = ''database.log'', monitorLogPath = ''monitor.csv'',
      etcdBinaryPath = ''/go/bin/etcd'', consulBinaryPath = ''/go/bin/consul'',
      etcdDataDir = ''data.etcd'', consulDataDir = ''data.consul'',
      zkWorkingDir = ''zookeeper'', zkDataDir = ''zookeeper/data.zk''\<rparr>"

definition freshServer :: transporterServer where
  "freshServer =
     \<lparr>req = \<lparr>Operation = Request_Start, Database_req = Request_etcdv2, PeerIPString = [],
             ServerIndex = 0, ZookeeperMyID = 0, EtcdCompression = [],
             ZookeeperMaxClientCnxns = 0, ZookeeperSnapCount = 0, TestName = [],
             GoogleCloudProjectName = [], GoogleCloudStorageKey = [],
             GoogleCloudStorageBucketName = [], GoogleCloudStorageSubDirectory = []\<rparr>,
      cmd = None, logfile = None, pid = 0\<rparr>"

definition runningServer :: transporterServer where
  "runningServer =
     \<lparr>req = someRequest\<lparr>GoogleCloudStorageKey := ''secret''\<rparr>,
      cmd = Some \<lparr>Path = ''/go/bin/etcd'', Args = [''/go/bin/etcd'', ''--name'', ''etcd-1'']\<rparr>,
      logfile = Some ''database.log'', pid = 4242\<rparr>"

section \<open>Lemmas and theorems\<close>

subsection \<open>The peer list survives the wire\<close>

lemma splitLoop_no_separator:
  "\<not> Contains x sep \<Longrightarrow> splitLoop sep cur x = [cur @ x]"
  by (induction x arbitrary: cur) auto

lemma delimSafe_tl: "delimSafe (c # cs) \<Longrightarrow> delimSafe cs"
  by (auto simp: delimSafe_def)

lemma delimSafe_no_early_match:
  assumes "delimSafe (c # cs)"
  shows "\<not> HasPrefix ((c # cs) @ ''___'' @ rest) ''___''"
proof (cases cs)
  case Nil
  with assms show ?thesis by (auto simp: delimSafe_def HasPrefix_def)
next
  case outer: (Cons d ds)
  show ?thesis
  proof (cases ds)
    case Nil
    with assms outer show ?thesis by (auto simp: delimSafe_def HasPrefix_def)
  next
    case (Cons e es)
    with assms outer show ?thesis by (auto simp: delimSafe_def HasPrefix_def)
  qed
qed

lemma splitLoop_piece:
  "delimSafe x \<Longrightarrow>
   splitLoop ''___'' cur (x @ ''___'' @ rest) = (cur @ x) # splitLoop ''___'' [] rest"
proof (induction x arbitrary: cur)
  case Nil
  show ?case by (simp add: HasPrefix_def)
next
  case (Cons c cs)
  have nm: "\<not> HasPrefix ((c # cs) @ ''___'' @ rest) ''___''"
    using Cons.prems by (rule delimSafe_no_early_match)
  have "splitLoop ''___'' cur ((c # cs) @ ''___'' @ rest)
        = splitLoop ''___'' (cur @ [c]) (cs @ ''___'' @ rest)"
    using nm by simp
  also have "\<dots> = ((cur @ [c]) @ cs) # splitLoop ''___'' [] rest"
    using Cons.IH [OF delimSafe_tl [OF Cons.prems]] .
  finally show ?case by simp
qed

lemma splitLoop_Join:
  "xs \<noteq> [] \<Longrightarrow> \<forall>x \<in> set xs. \<not> Contains x ''___'' \<Longrightarrow>
   \<forall>x \<in> set (butlast xs). x = [] \<or> last x \<noteq> CHR ''_'' \<Longrightarrow>
   splitLoop ''___'' [] (Join xs ''___'') = xs"
proof (induction xs)
  case Nil
  then show ?case by simp
next
  case (Cons x xs)
  show ?case
  proof (cases xs)
    case Nil
    with Cons.prems show ?thesis by (simp add: splitLoop_no_separator)
  next
    case inner: (Cons y ys)
    have sx: "delimSafe x"
      using Cons.prems inner by (simp add: delimSafe_def)
    have first: "splitLoop ''___'' [] (x @ ''___'' @ Join xs ''___'')
        = x # splitLoop ''___'' [] (Join xs ''___'')"
      using splitLoop_piece [OF sx, of "[]"] by simp
    have rest: "splitLoop ''___'' [] (Join xs ''___'') = xs"
      using Cons.IH Cons.prems inner by simp
    show ?thesis using first rest inner by simp
  qed
qed

text \<open>
  Claim C8, as stated, fails on the code. A peer string that ends in an underscore
  holds no \<open>___\<close>, yet its last byte runs into the delimiter and \<open>Split\<close> cuts one byte
  early; and the empty list is joined to the empty string, which \<open>Split\<close> turns into
  a list of one empty string.
\<close>

theorem peer_list_roundtrip_counterexample:
  "\<not> Contains ''a_'' ''___'' \<and> \<not> Contains ''b'' ''___''
   \<and> Split (Join [''a_'', ''b''] ''___'') ''___'' = [''a'', ''_b'']
   \<and> Split (Join [''a_'', ''b''] ''___'') ''___'' \<noteq> [''a_'', ''b'']
   \<and> Split (Join [] ''___'') ''___'' = [[]]
   \<and> Split (Join [] ''___'') ''___'' \<noteq> []"
  by (simp add: Split_def HasPrefix_def)

text \<open>
  Claim C8, amended: for every non-empty list of peer strings none of which contains
  \<open>___\<close> and none of which, the last one apart, ends in an underscore, joining with
  \<open>___\<close> (\<open>CommandFunc\<close>) and splitting at \<open>___\<close> (\<open>Transfer\<close>) gives back the list,
  same elements in the same order. IP addresses hold no underscore at all.
\<close>

theorem peer_list_roundtrip:
  assumes "xs \<noteq> []"
    and "\<forall>x \<in> set xs. \<not> Contains x ''___''"
    and "\<forall>x \<in> set (butlast xs). x = [] \<or> last x \<noteq> CHR ''_''"
  shows "Split (Join xs ''___'') ''___'' = xs"
  using splitLoop_Join [OF assms] by (simp add: Split_def)

theorem peer_list_roundtrip_witness:
  "Split (Join [''10.0.0.1'', ''10.0.0.2'', ''10.0.0.3''] ''___'') ''___''
     = [''10.0.0.1'', ''10.0.0.2'', ''10.0.0.3'']"
proof -
  let ?xs = "[''10.0.0.1'', ''10.0.0.2'', ''10.0.0.3'']"
  have 1: "?xs \<noteq> []" by simp
  have 2: "\<forall>x \<in> set ?xs. \<not> Contains x ''___''" by (simp add: HasPrefix_def)
  have 3: "\<forall>x \<in> set (butlast ?xs). x = [] \<or> last x \<noteq> CHR ''_''" by simp
  show ?thesis by (rule peer_list_roundtrip [OF 1 2 3])
qed

subsection \<open>Decimal keys\<close>

lemma of_char_digit_char: "d < 10 \<Longrightarrow> (of_char (digit_char d) :: nat) = 48 + d"
  by (simp add: digit_char_def)

lemma digit_char_less: "a < 10 \<Longrightarrow> b < 10 \<Longrightarrow> digit_char a < digit_char b \<longleftrightarrow> a < b"
  by (simp add: less_char_def of_char_digit_char)

lemma digit_char_zero: "digit_char 0 = CHR ''0''"
  by code_simp

lemma length_padded: "length (padded k n) = k"
  by (induction k arbitrary: n) simp_all

lemma padded_zero: "padded k 0 = replicate k CHR ''0''"
  by (induction k) (simp_all add: digit_char_zero replicate_append_same)

lemma sequentialKey_padded:
  "n < 10 ^ Suc k \<Longrightarrow> sequentialKey (Suc k) n = padded (Suc k) n"
proof (induction k arbitrary: n)
  case 0
  then have "n < 10" by simp
  then show ?case
    by (simp add: sequentialKey_def itoa.simps [of n])
next
  case (Suc k)
  show ?case
  proof (cases "n < 10")
    case True
    then have "itoa n = [digit_char n]" by (simp add: itoa.simps [of n])
    with True show ?thesis
      by (simp add: sequentialKey_def padded_zero replicate_append_same digit_char_zero)
  next
    case False
    have lt: "n div 10 < 10 ^ Suc k" using Suc.prems by (simp add: less_mult_imp_div_less)
    have it: "itoa n = itoa (n div 10) @ [digit_char (n mod 10)]"
      using False by (simp add: itoa.simps [of n])
    have "sequentialKey (Suc (Suc k)) n
        = sequentialKey (Suc k) (n div 10) @ [digit_char (n mod 10)]"
      by (simp add: sequentialKey_def it)
    then show ?thesis using Suc.IH [OF lt] by simp
  qed
qed

lemma append_less_same_length:
  fixes xs ys :: "'a::linorder list"
  shows "xs < ys \<Longrightarrow> length xs = length ys \<Longrightarrow> xs @ as < ys @ bs"
  unfolding list_less_def by (rule lexord_sufI) simp_all

lemma append_same_less:
  fixes xs :: "'a::linorder list"
  shows "xs @ as < xs @ bs \<longleftrightarrow> as < bs"
  by (induction xs) simp_all

lemma padded_less: "i < j \<Longrightarrow> j < 10 ^ k \<Longrightarrow> padded k i < padded k j"
proof (induction k arbitrary: i j)
  case 0
  then show ?case by simp
next
  case (Suc k)
  have jd: "j div 10 < 10 ^ k" using Suc.prems by (simp add: less_mult_imp_div_less)
  show ?case
  proof (cases "i div 10 < j div 10")
    case True
    have "padded k (i div 10) < padded k (j div 10)" by (rule Suc.IH [OF True jd])
    then show ?thesis
      by (simp add: append_less_same_length length_padded)
  next
    case False
    have "i div 10 \<le> j div 10" using Suc.prems(1) by (simp add: div_le_mono)
    with False have eq: "i div 10 = j div 10" by simp
    have "i mod 10 < j mod 10"
      using Suc.prems(1) eq by (metis div_mult_mod_eq nat_add_left_cancel_less)
    then show ?thesis
      by (simp add: eq append_same_less digit_char_less)
  qed
qed

lemma sequentialKey_less:
  assumes "i < j" "j < 10 ^ sz"
  shows "sequentialKey sz i < sequentialKey sz j"
proof (cases sz)
  case 0
  with assms show ?thesis by simp
next
  case (Suc k)
  have "i < 10 ^ Suc k" "j < 10 ^ Suc k" using assms Suc by simp_all
  then show ?thesis
    using padded_less [of i j "Suc k"] assms Suc by (simp only: sequentialKey_padded)
qed

subsection \<open>What the generators send\<close>

lemma go_rem_nonneg: "0 \<le> a \<Longrightarrow> 0 < b \<Longrightarrow> go_rem a b = Some (a mod b)"
  by (cases "a = 0") (simp_all add: go_rem_def)

lemma index_in_range: "0 \<le> i \<Longrightarrow> i < int (length xs) \<Longrightarrow> index xs i = Some (xs ! nat i)"
  by (simp add: index_def)

lemma sends_append: "sends (as @ bs) = sends as @ sends bs"
  by (induction as rule: sends.induct) simp_all


lemma sends_pacing: "sends (pacing cfg) = []"
  by (simp add: pacing_def)

lemma sends_writeRequest:
  "validDatabase db \<Longrightarrow>
   sends (writeRequest db k v vs) =
     [if db = ''etcdv2'' then etcdv2Op k vs
      else if db = ''etcdv3'' then etcdv3Op (OpPut k vs)
      else if db = ''zk'' \<or> db = ''zookeeper'' then zkOp (''/'' @ k) v
      else consulOp k v]"
  by (auto simp: validDatabase_def writeRequest_def)

lemma generateWritesLoop_step:
  assumes ok: "valuesOK vals" and lt: "int i < TotalRequests (Step2 cfg)"
  shows "generateWritesLoop cfg vals i =
     (if Database cfg = ''etcdv3'' \<and> Etcdv3CompactionCycle (Step2 cfg) > 0
            \<and> go_rem (int i) (Etcdv3CompactionCycle (Step2 cfg)) = Some 0
         then [GCompact i] else []) @
     writeRequest (Database cfg) (writeKey cfg i)
        (bytes vals ! nat (int i mod sampleSize vals))
        (strings vals ! nat (int i mod sampleSize vals))
     @ pacing cfg @ generateWritesLoop cfg vals (Suc i)"
proof -
  let ?j = "int i mod sampleSize vals"
  have pos: "0 < sampleSize vals" using ok by (simp add: valuesOK_def)
  have r: "go_rem (int i) (sampleSize vals) = Some ?j"
    using pos by (simp add: go_rem_nonneg)
  have j0: "0 \<le> ?j" and jlt: "?j < sampleSize vals" using pos by simp_all
  have b: "index (bytes vals) ?j = Some (bytes vals ! nat ?j)"
    using ok j0 jlt by (intro index_in_range) (simp_all add: valuesOK_def)
  have s: "index (strings vals) ?j = Some (strings vals ! nat ?j)"
    using ok j0 jlt by (intro index_in_range) (simp_all add: valuesOK_def)
  show ?thesis
    by (subst generateWritesLoop.simps) (simp only: lt r b s if_True Let_def option.case)
qed

lemma generateWritesLoop_end:
  "\<not> int i < TotalRequests (Step2 cfg) \<Longrightarrow> generateWritesLoop cfg vals i = [GClose]"
  by (subst generateWritesLoop.simps) simp

lemma sends_generateWritesLoop:
  assumes ok: "valuesOK vals" and db: "validDatabase (Database cfg)"
  shows "sends (generateWritesLoop cfg vals i)
     = map (writeOp cfg vals) [i ..< nat (TotalRequests (Step2 cfg))]"
proof (induction "nat (TotalRequests (Step2 cfg)) - i" arbitrary: i)
  case 0
  then have "\<not> int i < TotalRequests (Step2 cfg)" by simp
  then show ?case by (simp add: generateWritesLoop_end)
next
  case (Suc n)
  then have lt: "int i < TotalRequests (Step2 cfg)" by simp
  have n: "n = nat (TotalRequests (Step2 cfg)) - Suc i" using Suc.hyps(2) by simp
  have up: "[i ..< nat (TotalRequests (Step2 cfg))] = i # [Suc i ..< nat (TotalRequests (Step2 cfg))]"
    using lt by (simp add: upt_conv_Cons)
  have w: "sends (writeRequest (Database cfg) (writeKey cfg i)
        (bytes vals ! nat (int i mod sampleSize vals))
        (strings vals ! nat (int i mod sampleSize vals))) = [writeOp cfg vals i]"
    using db by (simp add: sends_writeRequest writeOp_def Let_def)
  show ?case
    unfolding generateWritesLoop_step [OF ok lt] up
    by (simp add: sends_append sends_pacing w Suc.hyps(1) [OF n])
qed

lemma sends_generateWrites:
  "valuesOK vals \<Longrightarrow> validDatabase (Database cfg) \<Longrightarrow>
   sends (generateWrites cfg vals) = map (writeOp cfg vals) [0 ..< nat (TotalRequests (Step2 cfg))]"
  by (simp add: generateWrites_def sends_generateWritesLoop)

lemma requestKey_writeOp:
  "requestKey (writeOp cfg vals i) = keyPrefix (Database cfg) @ writeKey cfg i"
  by (simp add: writeOp_def keyPrefix_def Let_def)

lemma itoa_bound: "n < 10 ^ length (itoa n)"
proof (induction n rule: itoa.induct)
  case (1 n)
  show ?case
  proof (cases "n < 10")
    case True
    then show ?thesis by (simp add: itoa.simps [of n])
  next
    case False
    then have "n div 10 < 10 ^ length (itoa (n div 10))" by (rule "1.IH")
    then have "n < 10 * 10 ^ length (itoa (n div 10))" by simp
    then show ?thesis using False by (simp add: itoa.simps [of n])
  qed
qed

lemma fits_bound: "length (itoa n) \<le> sz \<Longrightarrow> n < 10 ^ sz"
proof -
  assume "length (itoa n) \<le> sz"
  then have "(10::nat) ^ length (itoa n) \<le> 10 ^ sz" by (intro power_increasing) simp_all
  with itoa_bound [of n] show ?thesis by (rule less_le_trans)
qed

lemma length_sequentialKey_fits:
  "length (itoa i) \<le> sz \<Longrightarrow> length (sequentialKey sz i) = sz"
  by (simp add: sequentialKey_def)

lemma sends_generateWritesLoop_unfold:
  assumes lt: "int i < TotalRequests (Step2 cfg)"
  shows "sends (generateWritesLoop cfg vals i) = []
      \<or> (\<exists>v vs. sends (generateWritesLoop cfg vals i)
            = sends (writeRequest (Database cfg) (writeKey cfg i) v vs)
              @ sends (generateWritesLoop cfg vals (Suc i)))"
proof -
  define c where "c = (if Database cfg = ''etcdv3'' \<and> Etcdv3CompactionCycle (Step2 cfg) > 0
            \<and> go_rem (int i) (Etcdv3CompactionCycle (Step2 cfg)) = Some 0
         then [GCompact i] else [])"
  have sc: "sends c = []" by (simp add: c_def)
  have unf: "generateWritesLoop cfg vals i =
      c @ (case go_rem (int i) (sampleSize vals) of
              None \<Rightarrow> [GPanic]
            | Some j \<Rightarrow>
               (case index (bytes vals) j of
                  None \<Rightarrow> [GPanic]
                | Some v \<Rightarrow>
                   (case index (strings vals) j of
                      None \<Rightarrow> [GPanic]
                    | Some vs \<Rightarrow>
                        writeRequest (Database cfg) (writeKey cfg i) v vs @ pacing cfg
                        @ generateWritesLoop cfg vals (Suc i))))"
    by (subst generateWritesLoop.simps) (simp only: lt if_True Let_def c_def)
  show ?thesis
    unfolding unf by (auto simp: sends_append sc sends_pacing split: option.split)
qed

lemma sends_generateWritesLoop_unsupported:
  assumes "\<not> validDatabase (Database cfg)"
  shows "sends (generateWritesLoop cfg vals i) = []"
proof (induction "nat (TotalRequests (Step2 cfg)) - i" arbitrary: i)
  case 0
  then have "\<not> int i < TotalRequests (Step2 cfg)" by simp
  then show ?case by (simp add: generateWritesLoop_end)
next
  case (Suc n)
  then have lt: "int i < TotalRequests (Step2 cfg)" by simp
  have n: "n = nat (TotalRequests (Step2 cfg)) - Suc i" using Suc.hyps(2) by simp
  have w: "writeRequest (Database cfg) k v vs = []" for k v vs
    using assms by (auto simp: writeRequest_def validDatabase_def)
  show ?case
    using sends_generateWritesLoop_unfold [OF lt, of vals] by (auto simp: w Suc.hyps(1) [OF n])
qed

lemma key_generateWritesLoop:
  assumes db: "validDatabase (Database cfg)"
  shows "n < length (sends (generateWritesLoop cfg vals i)) \<Longrightarrow>
    requestKey (sends (generateWritesLoop cfg vals i) ! n)
      = keyPrefix (Database cfg) @ writeKey cfg (i + n)"
proof (induction "nat (TotalRequests (Step2 cfg)) - i" arbitrary: i n)
  case 0
  then have "\<not> int i < TotalRequests (Step2 cfg)" by simp
  then have "sends (generateWritesLoop cfg vals i) = []" by (simp add: generateWritesLoop_end)
  then show ?case using 0 by simp
next
  case (Suc m)
  then have lt: "int i < TotalRequests (Step2 cfg)" by simp
  have m: "m = nat (TotalRequests (Step2 cfg)) - Suc i" using Suc.hyps(2) by simp
  note cases = sends_generateWritesLoop_unfold [OF lt, of vals]
  from cases Suc.prems obtain v vs where
    unfold: "sends (generateWritesLoop cfg vals i)
            = sends (writeRequest (Database cfg) (writeKey cfg i) v vs)
              @ sends (generateWritesLoop cfg vals (Suc i))"
    by auto
  obtain op where op: "sends (writeRequest (Database cfg) (writeKey cfg i) v vs) = [op]"
    and key: "requestKey op = keyPrefix (Database cfg) @ writeKey cfg i"
    using db by (auto simp: sends_writeRequest keyPrefix_def)
  show ?case
  proof (cases n)
    case 0
    then show ?thesis by (simp add: unfold op key)
  next
    case (Suc k)
    then have "k < length (sends (generateWritesLoop cfg vals (Suc i)))"
      using Suc.prems by (simp add: unfold op)
    then have "requestKey (sends (generateWritesLoop cfg vals (Suc i)) ! k)
        = keyPrefix (Database cfg) @ writeKey cfg (Suc i + k)"
      by (rule Suc.hyps(1) [OF m])
    then show ?thesis using Suc by (simp add: unfold op)
  qed
qed

lemma key_generateWrites:
  assumes "i < length (sends (generateWrites cfg vals))"
  shows "requestKey (sends (generateWrites cfg vals) ! i)
    = keyPrefix (Database cfg) @ writeKey cfg i"
proof (cases "validDatabase (Database cfg)")
  case True
  then show ?thesis
    using key_generateWritesLoop [of cfg i vals 0] assms by (simp add: generateWrites_def)
next
  case False
  then have "sends (generateWrites cfg vals) = []"
    by (simp add: generateWrites_def sends_generateWritesLoop_unsupported)
  then show ?thesis using assms by simp
qed

lemma one_digit_key_below: "d < 10 \<Longrightarrow> \<not> ''9'' < [digit_char d]"
proof -
  assume d: "d < 10"
  have nine: "''9'' = [digit_char 9]" by code_simp
  have "\<not> digit_char 9 < digit_char d" using d by (simp add: digit_char_less)
  then show ?thesis unfolding nine by simp
qed

text \<open>
  Claim C7, as stated, fails. With key size 1 and eleven operations the index 10 has
  two digits and no key of one decimal digit is left for it: the keys of the indices
  0 to 9 are the ten digits, and no one-digit key is above \<open>9\<close> in the byte order of
  strings, whatever \<open>sequentialKey\<close> returns for the index (in this model it returns
  \<open>10\<close>, two bytes long and below \<open>9\<close>). For ZooKeeper the operation does not carry the
  key itself: \<open>generateWrites\<close> puts a \<open>/\<close> before it, one byte more than the key size.
  And no key has the configured size when that is negative.
\<close>

theorem write_keys_counterexample:
  "validDatabase (Database (writeConfig ''etcdv2'' 11 1 1 0)) \<and> valuesOK oneValue
   \<and> \<not> SameKey (Step2 (writeConfig ''etcdv2'' 11 1 1 0))
   \<and> KeySize (Step2 (writeConfig ''etcdv2'' 11 1 1 0)) = 1
   \<and> length (sends (generateWrites (writeConfig ''etcdv2'' 11 1 1 0) oneValue)) = 11
   \<and> map requestKey (take 10 (sends (generateWrites (writeConfig ''etcdv2'' 11 1 1 0) oneValue)))
       = map (\<lambda>d. [digit_char d]) [0 ..< 10]
   \<and> \<not> (\<exists>d. d < 10 \<and> ''9'' < [digit_char d])
   \<and> requestKey (sends (generateWrites (writeConfig ''etcdv2'' 11 1 1 0) oneValue) ! 10) = ''10''
   \<and> \<not> requestKey (sends (generateWrites (writeConfig ''etcdv2'' 11 1 1 0) oneValue) ! 9)
         < requestKey (sends (generateWrites (writeConfig ''etcdv2'' 11 1 1 0) oneValue) ! 10)
   \<and> KeySize (Step2 (writeConfig ''zookeeper'' 1 1 2 0)) = 2
   \<and> requestKey (sends (generateWrites (writeConfig ''zookeeper'' 1 1 2 0) oneValue) ! 0) = ''/00''
   \<and> SameKey (Step2 negativeKeySize) \<and> KeySize (Step2 negativeKeySize) = - 1
   \<and> length (sends (generateWrites negativeKeySize oneValue)) = 1
   \<and> int (length (requestKey (sends (generateWrites negativeKeySize oneValue) ! 0)))
       \<noteq> KeySize (Step2 negativeKeySize)"
proof -
  have a: "validDatabase (Database (writeConfig ''etcdv2'' 11 1 1 0)) \<and> valuesOK oneValue
   \<and> \<not> SameKey (Step2 (writeConfig ''etcdv2'' 11 1 1 0))
   \<and> KeySize (Step2 (writeConfig ''etcdv2'' 11 1 1 0)) = 1"
    by (simp add: writeConfig_def validDatabase_def valuesOK_def oneValue_def)
  have b: "length (sends (generateWrites (writeConfig ''etcdv2'' 11 1 1 0) oneValue)) = 11"
    by code_simp
  have c: "map requestKey (take 10 (sends (generateWrites (writeConfig ''etcdv2'' 11 1 1 0) oneValue)))
       = map (\<lambda>d. [digit_char d]) [0 ..< 10]"
    by code_simp
  have d: "\<not> (\<exists>d. d < 10 \<and> ''9'' < [digit_char d])"
    using one_digit_key_below by blast
  have e: "requestKey (sends (generateWrites (writeConfig ''etcdv2'' 11 1 1 0) oneValue) ! 10) = ''10''"
    by code_simp
  have f: "\<not> requestKey (sends (generateWrites (writeConfig ''etcdv2'' 11 1 1 0) oneValue) ! 9)
         < requestKey (sends (generateWrites (writeConfig ''etcdv2'' 11 1 1 0) oneValue) ! 10)"
    by code_simp
  have g: "KeySize (Step2 (writeConfig ''zookeeper'' 1 1 2 0)) = 2" by (simp add: writeConfig_def)
  have h: "requestKey (sends (generateWrites (writeConfig ''zookeeper'' 1 1 2 0) oneValue) ! 0) = ''/00''"
    by code_simp
  have i: "SameKey (Step2 negativeKeySize) \<and> KeySize (Step2 negativeKeySize) = - 1"
    by (simp add: negativeKeySize_def)
  have j: "length (sends (generateWrites negativeKeySize oneValue)) = 1" by code_simp
  have k: "int (length (requestKey (sends (generateWrites negativeKeySize oneValue) ! 0)))
       \<noteq> KeySize (Step2 negativeKeySize)"
    using i by simp
  show ?thesis using a b c d e f g h i j k by (intro conjI) simp_all
qed

text \<open>
  Claim C7, amended: in the write generator the operation sent at index \<open>i\<close>, counted
  from 0 (\<open>T\<close> operations are sent when the backend is supported and the corpus has a
  value for every index), carries the key \<open>sequentialKey\<close> of the key size and \<open>i\<close>
  when same-key mode is off, and the fixed key \<open>sameKey\<close> of the key size when it is
  on; for ZooKeeper a \<open>/\<close> stands before the key. The fixed key is the same for every
  operation and has the configured size when that is not negative. For every index
  with no more decimal digits than the key size the sequential key has the configured
  size, and from any index to a later one of those the key is strictly greater in the
  byte order of strings.
\<close>

theorem write_keys:
  "(\<forall>i < length (sends (generateWrites cfg vals)).
        requestKey (sends (generateWrites cfg vals) ! i)
          = keyPrefix (Database cfg) @
            (if SameKey (Step2 cfg) then sameKey (nat (KeySize (Step2 cfg)))
             else sequentialKey (nat (KeySize (Step2 cfg))) i))
    \<and> (validDatabase (Database cfg) \<and> valuesOK vals \<longrightarrow>
          length (sends (generateWrites cfg vals)) = nat (TotalRequests (Step2 cfg)))
    \<and> (0 \<le> KeySize (Step2 cfg) \<longrightarrow>
          int (length (sameKey (nat (KeySize (Step2 cfg))))) = KeySize (Step2 cfg))
    \<and> (\<forall>i. length (itoa i) \<le> nat (KeySize (Step2 cfg)) \<longrightarrow>
          int (length (sequentialKey (nat (KeySize (Step2 cfg))) i)) = KeySize (Step2 cfg))
    \<and> (\<not> SameKey (Step2 cfg) \<longrightarrow>
          (\<forall>i j. i < j \<and> j < length (sends (generateWrites cfg vals))
                 \<and> length (itoa j) \<le> nat (KeySize (Step2 cfg)) \<longrightarrow>
             requestKey (sends (generateWrites cfg vals) ! i)
               < requestKey (sends (generateWrites cfg vals) ! j)))
    \<and> (SameKey (Step2 cfg) \<longrightarrow>
          (\<forall>i j. i < length (sends (generateWrites cfg vals))
                 \<and> j < length (sends (generateWrites cfg vals)) \<longrightarrow>
             requestKey (sends (generateWrites cfg vals) ! i)
               = requestKey (sends (generateWrites cfg vals) ! j)))"
proof -
  let ?ks = "nat (KeySize (Step2 cfg))"
  let ?ops = "sends (generateWrites cfg vals)"
  have key: "requestKey (?ops ! i) = keyPrefix (Database cfg) @ writeKey cfg i"
    if "i < length ?ops" for i
    using that by (rule key_generateWrites)
  have c1: "\<forall>i < length ?ops. requestKey (?ops ! i) = keyPrefix (Database cfg) @
              (if SameKey (Step2 cfg) then sameKey ?ks else sequentialKey ?ks i)"
    using key by (simp add: writeKey_def)
  have c2: "validDatabase (Database cfg) \<and> valuesOK vals \<longrightarrow>
          length ?ops = nat (TotalRequests (Step2 cfg))"
    by (simp add: sends_generateWrites)
  have c3: "0 \<le> KeySize (Step2 cfg) \<longrightarrow> int (length (sameKey ?ks)) = KeySize (Step2 cfg)"
    by (simp add: sameKey_def)
  have c4: "\<forall>i. length (itoa i) \<le> ?ks \<longrightarrow>
      int (length (sequentialKey ?ks i)) = KeySize (Step2 cfg)"
  proof (intro allI impI)
    fix i assume fits: "length (itoa i) \<le> ?ks"
    have "itoa i \<noteq> []" by (subst itoa.simps) simp
    then have "1 \<le> length (itoa i)" by (cases "itoa i") simp_all
    then have "1 \<le> ?ks" using fits by (rule order_trans)
    then have "0 < KeySize (Step2 cfg)" by linarith
    then show "int (length (sequentialKey ?ks i)) = KeySize (Step2 cfg)"
      using fits by (simp add: length_sequentialKey_fits)
  qed
  have c5: "\<not> SameKey (Step2 cfg) \<longrightarrow>
          (\<forall>i j. i < j \<and> j < length ?ops \<and> length (itoa j) \<le> ?ks \<longrightarrow>
             requestKey (?ops ! i) < requestKey (?ops ! j))"
  proof (intro impI allI, elim conjE)
    fix i j
    assume off: "\<not> SameKey (Step2 cfg)" and ij: "i < j" and jT: "j < length ?ops"
      and jw: "length (itoa j) \<le> ?ks"
    have "j < 10 ^ ?ks" using jw by (rule fits_bound)
    with ij have "sequentialKey ?ks i < sequentialKey ?ks j" by (rule sequentialKey_less)
    moreover have "i < length ?ops" using ij jT by simp
    ultimately show "requestKey (?ops ! i) < requestKey (?ops ! j)"
      using off jT by (simp add: key writeKey_def append_same_less)
  qed
  have c6: "SameKey (Step2 cfg) \<longrightarrow>
          (\<forall>i j. i < length ?ops \<and> j < length ?ops \<longrightarrow>
             requestKey (?ops ! i) = requestKey (?ops ! j))"
    by (simp add: key writeKey_def)
  show ?thesis by (rule conjI [OF c1 conjI [OF c2 conjI [OF c3 conjI [OF c4 conjI [OF c5 c6]]]]])
qed

theorem write_keys_witness:
  "length (sends (generateWrites (writeConfig ''etcdv2'' 11 1 2 0) oneValue)) = 11
   \<and> requestKey (sends (generateWrites (writeConfig ''etcdv2'' 11 1 2 0) oneValue) ! 9) = ''09''
   \<and> requestKey (sends (generateWrites (writeConfig ''etcdv2'' 11 1 2 0) oneValue) ! 10) = ''10''
   \<and> requestKey (sends (generateWrites (writeConfig ''etcdv2'' 11 1 2 0) oneValue) ! 9)
       < requestKey (sends (generateWrites (writeConfig ''etcdv2'' 11 1 2 0) oneValue) ! 10)
   \<and> length (sends (generateWrites sameKeyWrites oneValue)) = 2
   \<and> requestKey (sends (generateWrites sameKeyWrites oneValue) ! 0) = ''/aa''
   \<and> requestKey (sends (generateWrites sameKeyWrites oneValue) ! 1) = ''/aa''
   \<and> length (sequentialKey 2 10) = 2 \<and> length (sameKey 2) = 2"
proof -
  let ?cfg = "writeConfig ''etcdv2'' 11 1 2 0"
  let ?ops = "sends (generateWrites ?cfg oneValue)"
  have db: "validDatabase (Database ?cfg)" by (simp add: validDatabase_def writeConfig_def)
  have ok: "valuesOK oneValue" by (simp add: valuesOK_def oneValue_def)
  note w = write_keys [of ?cfg oneValue]
  have T: "nat (TotalRequests (Step2 ?cfg)) = 11" and ks: "nat (KeySize (Step2 ?cfg)) = 2"
    and off: "\<not> SameKey (Step2 ?cfg)" and pre: "keyPrefix (Database ?cfg) = []"
    by (simp_all add: writeConfig_def keyPrefix_def)
  have len: "length ?ops = 11" using w db ok T by simp
  have k9: "requestKey (?ops ! 9) = sequentialKey 2 9" using w len ks off pre by simp
  have k10: "requestKey (?ops ! 10) = sequentialKey 2 10" using w len ks off pre by simp
  have fits: "length (itoa 10) \<le> (2::nat)" by code_simp
  have lt: "requestKey (?ops ! 9) < requestKey (?ops ! 10)"
  proof -
    have "(9::nat) < 10 \<and> (10::nat) < length ?ops \<and> length (itoa 10) \<le> nat (KeySize (Step2 ?cfg))"
      using len ks fits by simp
    then show ?thesis using w off by (metis (no_types, lifting))
  qed
  have s9: "sequentialKey 2 9 = ''09''" by code_simp
  have s10: "sequentialKey 2 10 = ''10''" by code_simp
  let ?same = "sends (generateWrites sameKeyWrites oneValue)"
  note v = write_keys [of sameKeyWrites oneValue]
  have sdb: "validDatabase (Database sameKeyWrites)"
    by (simp add: validDatabase_def sameKeyWrites_def)
  have sT: "nat (TotalRequests (Step2 sameKeyWrites)) = 2"
    and sks: "nat (KeySize (Step2 sameKeyWrites)) = 2"
    and son: "SameKey (Step2 sameKeyWrites)"
    and spre: "keyPrefix (Database sameKeyWrites) = ''/''"
    by (simp_all add: sameKeyWrites_def keyPrefix_def)
  have slen: "length ?same = 2" using v sdb ok sT by simp
  have sk: "sameKey 2 = ''aa''" by code_simp
  have s0: "requestKey (?same ! 0) = ''/aa''" using v slen sks son spre sk by simp
  have s1: "requestKey (?same ! 1) = ''/aa''" using v slen sks son spre sk by simp
  have l10: "length (sequentialKey 2 10) = 2"
  proof -
    have "int (length (sequentialKey (nat (KeySize (Step2 ?cfg))) 10)) = KeySize (Step2 ?cfg)"
      using w fits ks by simp
    then show ?thesis by (simp add: writeConfig_def)
  qed
  have lsame: "length (sameKey 2) = 2"
  proof -
    have "0 \<le> KeySize (Step2 sameKeyWrites)" by (simp add: sameKeyWrites_def)
    then have "int (length (sameKey (nat (KeySize (Step2 sameKeyWrites)))))
        = KeySize (Step2 sameKeyWrites)"
      using v by simp
    then show ?thesis by (simp add: sameKeyWrites_def)
  qed
  show ?thesis using len k9 k10 lt s9 s10 slen s0 s1 l10 lsame by simp
qed
subsection \<open>A phase: every step makes progress and keeps the invariants\<close>

lemma sum_list_map_update:
  fixes f :: "'a \<Rightarrow> 'b::comm_monoid_add"
  shows "i < length xs \<Longrightarrow>
    sum_list (map f (xs[i := y])) + f (xs ! i) = sum_list (map f xs) + f y"
proof (induction xs arbitrary: i)
  case Nil
  then show ?case by simp
next
  case (Cons x xs)
  show ?case
  proof (cases i)
    case 0
    then show ?thesis by (simp add: ac_simps)
  next
    case (Suc j)
    then have "j < length xs" using Cons.prems by simp
    from Cons.IH [OF this] show ?thesis using Suc by (simp add: ac_simps)
  qed
qed

lemma workerLeft_update:
  "i < length ws \<Longrightarrow>
   sum_list (map workerLeft (ws[i := w])) + workerLeft (ws ! i)
     = sum_list (map workerLeft ws) + workerLeft w"
  by (rule sum_list_map_update)

lemma step_workLeft: "step s s' \<Longrightarrow> workLeft s' < workLeft s"
proof (induction rule: step.induct)
  case (gen_handoff s r rest i)
  then show ?case
    using workerLeft_update [of i "workers s" "WExec r"] by (simp add: workLeft_def)
next
  case (w_recv s i r q)
  then show ?case
    using workerLeft_update [of i "workers s" "WExec r"] by (simp add: workLeft_def)
next
  case (w_exit s i)
  then show ?case
    using workerLeft_update [of i "workers s" "WExit"] by (simp add: workLeft_def)
next
  case (w_exec s i r failed)
  then show ?case
    using workerLeft_update [of i "workers s" "WSend (Outcome r failed)"]
    by (simp add: workLeft_def)
next
  case (w_publish s i out)
  then show ?case
    using workerLeft_update [of i "workers s" "WRecv"] by (simp add: workLeft_def)
qed (simp_all add: workLeft_def)

lemma alive_update:
  "i < length ws \<Longrightarrow>
   sum_list (map alive (ws[i := w])) + alive (ws ! i) = sum_list (map alive ws) + alive w"
  by (rule sum_list_map_update)

lemma alive_update_same:
  "i < length ws \<Longrightarrow> alive w = alive (ws ! i) \<Longrightarrow>
   sum_list (map alive (ws[i := w])) = sum_list (map alive ws)"
  using alive_update [of i ws w] by simp

lemma WExit_update:
  "WExit \<in> set (ws[i := w]) \<Longrightarrow> w \<noteq> WExit \<Longrightarrow> WExit \<in> set ws"
  using set_update_subset_insert [of ws i w] by auto

lemma no_alive_all_exited:
  "sum_list (map alive ws) = 0 \<Longrightarrow> w \<in> set ws \<Longrightarrow> w = WExit"
  by (cases w) auto

lemma no_alive_nth:
  "sum_list (map alive ws) = 0 \<Longrightarrow> i < length ws \<Longrightarrow> ws ! i = WExit"
  using no_alive_all_exited [of ws "ws ! i"] nth_mem [of i ws] by blast

lemma closesLast_tl: "closesLast (a # as) \<Longrightarrow> closesLast as"
  by (cases as) (auto simp: closesLast_def split: if_splits)

lemma closesLast_close: "closesLast (GClose # as) \<Longrightarrow> as = []"
  by (cases as) (auto simp: closesLast_def)

lemma barrierInv_start:
  "closesLast scr \<Longrightarrow> barrierInv (length h) (startPhase cfg h scr)"
  by (simp add: barrierInv_def startPhase_def sum_list_replicate)

lemma barrierInv_step:
  assumes W: "0 < W" and inv: "barrierInv W s" and st: "step s s'"
  shows "barrierInv W s'"
  using st inv
proof (induction rule: step.induct)
  case (gen_compact s i rest)
  then show ?case by (auto simp: barrierInv_def dest: closesLast_tl)
next
  case (gen_send s r rest)
  then show ?case by (auto simp: barrierInv_def dest: closesLast_tl)
next
  case (gen_handoff s r rest i)
  then show ?case
    by (auto simp: barrierInv_def alive_update_same dest: closesLast_tl WExit_update)
next
  case (gen_send_closed s r rest)
  then show ?case by (auto simp: barrierInv_def)
next
  case (gen_sleep s d rest)
  then show ?case by (auto simp: barrierInv_def dest: closesLast_tl)
next
  case (gen_close s rest)
  then show ?case by (auto simp: barrierInv_def dest: closesLast_tl closesLast_close)
next
  case (gen_close_closed s rest)
  then show ?case by (auto simp: barrierInv_def)
next
  case (gen_panic s rest)
  then show ?case by (auto simp: barrierInv_def dest: closesLast_tl)
next
  case (w_recv s i r q)
  then show ?case
    by (auto simp: barrierInv_def alive_update_same dest: WExit_update)
next
  case (w_exit s i)
  have "sum_list (map alive ((workers s)[i := WExit])) + 1 = sum_list (map alive (workers s))"
    using w_exit alive_update [of i "workers s" WExit] by simp
  moreover have "driver s = DWait"
  proof (rule ccontr)
    assume "driver s \<noteq> DWait"
    then have "int (sum_list (map alive (workers s))) + int (compactions s) = 0"
      using w_exit by (auto simp: barrierInv_def)
    then have "sum_list (map alive (workers s)) = 0" by linarith
    then have "workers s ! i = WExit" using w_exit by (intro no_alive_nth)
    then show False using w_exit by simp
  qed
  ultimately show ?case using w_exit by (auto simp: barrierInv_def)
next
  case (w_exec s i r failed)
  then show ?case
    by (auto simp: barrierInv_def alive_update_same dest: WExit_update)
next
  case (w_exec_nil s i r)
  then show ?case by (auto simp: barrierInv_def)
next
  case (w_publish s i out)
  then show ?case
    by (auto simp: barrierInv_def alive_update_same dest: WExit_update)
next
  case (w_publish_closed s i out)
  then show ?case by (auto simp: barrierInv_def)
next
  case (comp_done s)
  then show ?case by (auto simp: barrierInv_def)
next
  case (d_wait s)
  have "workers s \<noteq> []" using d_wait W by (auto simp: barrierInv_def)
  then obtain w where w: "w \<in> set (workers s)" by (cases "workers s") auto
  have "int (sum_list (map alive (workers s))) + int (compactions s) = 0"
    using d_wait by (auto simp: barrierInv_def)
  then have "sum_list (map alive (workers s)) = 0" by linarith
  then have "w = WExit" using w by (rule no_alive_all_exited)
  then have "requests_closed s" using w d_wait by (auto simp: barrierInv_def)
  then show ?case using d_wait by (auto simp: barrierInv_def)
next
  case (d_close s)
  then show ?case by (auto simp: barrierInv_def)
next
  case (agg_final s)
  then show ?case by (auto simp: barrierInv_def)
next
  case (d_done s)
  then show ?case by (auto simp: barrierInv_def)
qed


lemma held_update:
  "i < length ws \<Longrightarrow>
   sum_list (map held (ws[i := w])) + held (ws ! i) = sum_list (map held ws) + held w"
  by (rule sum_list_map_update)

lemma held_update_same:
  "i < length ws \<Longrightarrow> held w = held (ws ! i) \<Longrightarrow>
   sum_list (map held (ws[i := w])) = sum_list (map held ws)"
  using held_update [of i ws w] by simp

lemma held_all_exited:
  "\<forall>w \<in> set ws. w = WExit \<Longrightarrow> sum_list (map held ws) = {#}"
  by (induction ws) simp_all

lemma last_tl_close: "last (a # as) = GClose \<Longrightarrow> a \<noteq> GClose \<Longrightarrow> as \<noteq> [] \<and> last as = GClose"
  by (cases as) auto

lemma held_replicate_WRecv: "sum_list (replicate n ({#} :: request multiset)) = {#}"
  by (induction n) simp_all

lemma all_handlers: "False \<notin> set h \<Longrightarrow> h = replicate (length h) True"
  by (induction h) auto

lemma phaseInv_start:
  assumes "scriptOK scr" and "length h = nat (Clients (Step2 cfg))" and "False \<notin> set h"
  shows "phaseInv scr (startPhase cfg h scr)"
  using assms all_handlers [of h]
  by (simp add: phaseInv_def startPhase_def scriptOK_def held_replicate_WRecv)

lemma phaseInv_hasHandler:
  "phaseInv scr s \<Longrightarrow> i < length (workers s) \<Longrightarrow> hasHandler s i"
  by (simp add: phaseInv_def hasHandler_def)

lemma all_exited_after_wait:
  assumes "barrierInv W s" and "driver s \<noteq> DWait" and "i < length (workers s)"
  shows "workers s ! i = WExit"
proof -
  have "int (sum_list (map alive (workers s))) + int (compactions s) = 0"
    using assms(1,2) by (auto simp: barrierInv_def)
  then have "sum_list (map alive (workers s)) = 0" by linarith
  then show ?thesis using assms(3) by (rule no_alive_nth)
qed

lemma phaseInv_step:
  assumes W: "0 < W" and bar: "barrierInv W s" and inv: "phaseInv scr s" and st: "step s s'"
  shows "phaseInv scr s'"
  using st bar inv
proof (induction rule: step.induct)
  case (gen_compact s i rest)
  then show ?case by (auto simp: phaseInv_def split: if_splits)
next
  case (gen_send s r rest)
  then have "WExit \<notin> set (workers s)" by (auto simp: barrierInv_def)
  with gen_send show ?case by (auto simp: phaseInv_def split: if_splits)
next
  case (gen_handoff s r rest i)
  have "sum_list (map held ((workers s)[i := WExec r])) = sum_list (map held (workers s)) + {#r#}"
    using gen_handoff held_update [of i "workers s" "WExec r"] by simp
  with gen_handoff show ?case
    by (auto simp: phaseInv_def dest: WExit_update split: if_splits)
next
  case (gen_send_closed s r rest)
  then show ?case by (auto simp: barrierInv_def)
next
  case (gen_sleep s d rest)
  then show ?case by (auto simp: phaseInv_def split: if_splits)
next
  case (gen_close s rest)
  then have "rest = []" by (auto simp: barrierInv_def dest: closesLast_close)
  with gen_close show ?case by (auto simp: phaseInv_def)
next
  case (gen_close_closed s rest)
  then show ?case by (auto simp: barrierInv_def)
next
  case (gen_panic s rest)
  then show ?case by (auto simp: phaseInv_def)
next
  case (w_recv s i r q)
  have "sum_list (map held ((workers s)[i := WExec r])) = sum_list (map held (workers s)) + {#r#}"
    using w_recv held_update [of i "workers s" "WExec r"] by simp
  moreover have "WExit \<notin> set (workers s)" using w_recv by (auto simp: phaseInv_def)
  ultimately show ?case using w_recv
    by (auto simp: phaseInv_def dest: WExit_update)
next
  case (w_exit s i)
  have "sum_list (map held ((workers s)[i := WExit])) = sum_list (map held (workers s))"
    using w_exit by (intro held_update_same) simp_all
  with w_exit show ?case by (auto simp: phaseInv_def)
next
  case (w_exec s i r failed)
  have "sum_list (map held ((workers s)[i := WSend (Outcome r failed)]))
      = sum_list (map held (workers s))"
    using w_exec by (intro held_update_same) simp_all
  with w_exec show ?case by (auto simp: phaseInv_def dest: WExit_update)
next
  case (w_exec_nil s i r)
  then have "hasHandler s i" by (intro phaseInv_hasHandler)
  with w_exec_nil show ?case by simp
next
  case (w_publish s i out)
  have "sum_list (map held ((workers s)[i := WRecv])) + {#outcomeOp out#}
      = sum_list (map held (workers s))"
    using w_publish held_update [of i "workers s" WRecv] by simp
  then have "mset (sent s) = mset (requests s) + sum_list (map held ((workers s)[i := WRecv]))
      + mset (map outcomeOp (results s @ [out]))"
    using w_publish by (simp add: phaseInv_def)
  with w_publish show ?case by (auto simp: phaseInv_def dest: WExit_update)
next
  case (w_publish_closed s i out)
  then have "driver s \<noteq> DWait" by (auto simp: phaseInv_def)
  then have "workers s ! i = WExit"
    using w_publish_closed by (intro all_exited_after_wait [of W]) simp_all
  with w_publish_closed show ?case by simp
next
  case (comp_done s)
  then show ?case by (auto simp: phaseInv_def)
next
  case (d_wait s)
  then show ?case by (auto simp: phaseInv_def)
next
  case (d_close s)
  then show ?case by (auto simp: phaseInv_def)
next
  case (agg_final s)
  then show ?case by (auto simp: phaseInv_def)
next
  case (d_done s)
  then show ?case by (auto simp: phaseInv_def)
qed

lemma invariants_reaches:
  assumes "0 < W" and "barrierInv W s0" and "phaseInv scr s0" and "reaches s0 s"
  shows "barrierInv W s \<and> phaseInv scr s"
  using assms(4,2,3)
  by (induction rule: reaches.induct)
     (auto intro: barrierInv_step [OF assms(1)] phaseInv_step [OF assms(1)])

lemma scriptOK_append:
  "scriptOK bs \<Longrightarrow> GClose \<notin> set as \<Longrightarrow> GPanic \<notin> set as \<Longrightarrow> scriptOK (as @ bs)"
  by (auto simp: scriptOK_def butlast_append)

lemma scriptOK_closesLast: "scriptOK as \<Longrightarrow> closesLast as"
  by (simp add: scriptOK_def closesLast_def)

lemma writeRequest_plain: "GClose \<notin> set (writeRequest db k v vs) \<and> GPanic \<notin> set (writeRequest db k v vs)"
  by (simp add: writeRequest_def)

lemma readRequest_plain: "GClose \<notin> set (readRequest cfg k) \<and> GPanic \<notin> set (readRequest cfg k)"
  by (simp add: readRequest_def)

lemma pacing_plain: "GClose \<notin> set (pacing cfg) \<and> GPanic \<notin> set (pacing cfg)"
  by (simp add: pacing_def)

lemma scriptOK_generateWritesLoop:
  assumes ok: "valuesOK vals"
  shows "scriptOK (generateWritesLoop cfg vals i)"
proof (induction "nat (TotalRequests (Step2 cfg)) - i" arbitrary: i)
  case 0
  then have "\<not> int i < TotalRequests (Step2 cfg)" by simp
  then show ?case by (simp add: generateWritesLoop_end scriptOK_def)
next
  case (Suc n)
  then have lt: "int i < TotalRequests (Step2 cfg)" by simp
  have n: "n = nat (TotalRequests (Step2 cfg)) - Suc i" using Suc.hyps(2) by simp
  have rest: "scriptOK (generateWritesLoop cfg vals (Suc i))" by (rule Suc.hyps(1) [OF n])
  show ?case
    unfolding generateWritesLoop_step [OF ok lt]
    by (intro scriptOK_append rest) (simp_all add: writeRequest_plain pacing_plain)
qed

lemma generateReadsLoop_step:
  "int i < TotalRequests (Step2 cfg) \<Longrightarrow>
   generateReadsLoop cfg k i = readRequest cfg k @ pacing cfg @ generateReadsLoop cfg k (Suc i)"
  by (subst generateReadsLoop.simps) simp

lemma generateReadsLoop_end:
  "\<not> int i < TotalRequests (Step2 cfg) \<Longrightarrow> generateReadsLoop cfg k i = [GClose]"
  by (subst generateReadsLoop.simps) simp

lemma scriptOK_generateReadsLoop: "scriptOK (generateReadsLoop cfg k i)"
proof (induction "nat (TotalRequests (Step2 cfg)) - i" arbitrary: i)
  case 0
  then have "\<not> int i < TotalRequests (Step2 cfg)" by simp
  then show ?case by (simp add: generateReadsLoop_end scriptOK_def)
next
  case (Suc n)
  then have lt: "int i < TotalRequests (Step2 cfg)" by simp
  have n: "n = nat (TotalRequests (Step2 cfg)) - Suc i" using Suc.hyps(2) by simp
  have rest: "scriptOK (generateReadsLoop cfg k (Suc i))" by (rule Suc.hyps(1) [OF n])
  show ?case
    unfolding generateReadsLoop_step [OF lt]
    by (intro scriptOK_append rest) (simp_all add: readRequest_plain pacing_plain)
qed

lemma length_sends_readRequest:
  "validDatabase (Database cfg) \<Longrightarrow> length (sends (readRequest cfg k)) = 1"
  by (auto simp: validDatabase_def readRequest_def)

lemma length_sends_generateReadsLoop:
  assumes db: "validDatabase (Database cfg)"
  shows "length (sends (generateReadsLoop cfg k i)) = nat (TotalRequests (Step2 cfg)) - i"
proof (induction "nat (TotalRequests (Step2 cfg)) - i" arbitrary: i)
  case 0
  then have "\<not> int i < TotalRequests (Step2 cfg)" by simp
  then show ?case using 0 by (simp add: generateReadsLoop_end)
next
  case (Suc n)
  then have lt: "int i < TotalRequests (Step2 cfg)" by simp
  have n: "n = nat (TotalRequests (Step2 cfg)) - Suc i" using Suc.hyps(2) by simp
  show ?case
    unfolding generateReadsLoop_step [OF lt]
    using Suc.hyps(1) [OF n] Suc.hyps(2) n
    by (simp add: sends_append sends_pacing length_sends_readRequest [OF db])
qed

lemma requestKey_readRequest:
  "r \<in> set (sends (readRequest cfg k)) \<Longrightarrow> requestKey r = k"
  by (auto simp: readRequest_def split: if_splits)

lemma progress:
  assumes W: "0 < W" and bar: "barrierInv W s" and inv: "phaseInv scr s"
    and going: "driver s \<noteq> DDone"
  shows "\<exists>s'. step s s'"
proof -
  have nc: "\<not> crashed s" using inv by (simp add: phaseInv_def)
  have len: "length (workers s) = W" using bar by (simp add: barrierInv_def)
  have cap: "requests_cap s = W" using inv len by (simp add: phaseInv_def)
  have open_results: "\<not> results_closed s" if "i < length (workers s)" "workers s ! i \<noteq> WExit" for i
  proof
    assume "results_closed s"
    then have "driver s \<noteq> DWait" using inv by (auto simp: phaseInv_def)
    then have "workers s ! i = WExit" using bar that(1) by (intro all_exited_after_wait [of W])
    then show False using that(2) by simp
  qed
  have worker_step: "\<exists>s'. step s s'"
    if i: "i < length (workers s)" and ne: "workers s ! i \<noteq> WExit"
      and q: "requests s \<noteq> [] \<or> requests_closed s" for i
  proof (cases "workers s ! i")
    case WRecv
    show ?thesis
    proof (cases "requests s")
      case Nil
      then have "requests_closed s" using q by simp
      then show ?thesis using step.w_exit [OF nc i WRecv Nil] by blast
    next
      case (Cons r q)
      show ?thesis using step.w_recv [OF nc i WRecv Cons] by blast
    qed
  next
    case (WExec r)
    show ?thesis using step.w_exec [OF nc i WExec phaseInv_hasHandler [OF inv i]] by blast
  next
    case (WSend out)
    show ?thesis using step.w_publish [OF nc i WSend open_results [OF i ne]] by blast
  next
    case WExit
    then show ?thesis using ne by simp
  qed
  show ?thesis
  proof (cases "script s")
    case (Cons a rest)
    then have opn: "\<not> requests_closed s" using bar by (auto simp: barrierInv_def)
    show ?thesis
    proof (cases a)
      case (GCompact i)
      show ?thesis using step.gen_compact [OF nc] Cons GCompact by blast
    next
      case (GSend r)
      show ?thesis
      proof (cases "length (requests s) < requests_cap s")
        case True
        show ?thesis using step.gen_send [OF nc _ opn True] Cons GSend by blast
      next
        case False
        then have q: "requests s \<noteq> []" using cap W by auto
        have i: "0 < length (workers s)" using len W by simp
        have "workers s ! 0 \<noteq> WExit"
        proof
          assume "workers s ! 0 = WExit"
          then have "WExit \<in> set (workers s)" using i nth_mem by fastforce
          then show False using bar opn by (simp add: barrierInv_def)
        qed
        then show ?thesis using worker_step [OF i] q by blast
      qed
    next
      case (GSleep d)
      show ?thesis using step.gen_sleep [OF nc] Cons GSleep by blast
    next
      case GClose
      show ?thesis using step.gen_close [OF nc _ opn] Cons GClose by blast
    next
      case GPanic
      show ?thesis using step.gen_panic [OF nc] Cons GPanic by blast
    qed
  next
    case Nil
    then have closed: "requests_closed s" using inv by (auto simp: phaseInv_def)
    show ?thesis
    proof (cases "\<exists>i < length (workers s). workers s ! i \<noteq> WExit")
      case True
      then show ?thesis using worker_step closed by blast
    next
      case allx: False
      show ?thesis
      proof (cases "0 < compactions s")
        case True
        show ?thesis using step.comp_done [OF nc True] by blast
      next
        case False
        have "sum_list (map alive (workers s)) = 0"
          using allx by (auto simp: in_set_conv_nth)
        then have wg0: "wg s = 0" using bar False by (simp add: barrierInv_def)
        show ?thesis
        proof (cases "driver s")
          case DWait
          show ?thesis using step.d_wait [OF nc DWait wg0] by blast
        next
          case DFinish
          show ?thesis using step.d_close [OF nc DFinish] by blast
        next
          case DClosed
          then have rc: "results_closed s" using inv by (simp add: phaseInv_def)
          show ?thesis
          proof (cases "report s")
            case None
            show ?thesis using step.agg_final [OF nc rc None] by blast
          next
            case (Some rep)
            then have "report s \<noteq> None" by simp
            then show ?thesis using step.d_done [OF nc DClosed] by blast
          qed
        next
          case DDone
          then show ?thesis using going by simp
        qed
      qed
    qed
  qed
qed
subsection \<open>The priming write\<close>



lemma primeLoop_ok:
  "i < 7 \<Longrightarrow> 0 < c \<Longrightarrow> put i r = None \<Longrightarrow>
   primeLoop put c r i err = ([PrimeAttempt i r None], PrimeErr None)"
  by (subst primeLoop.simps) simp







subsection \<open>The handlers\<close>

lemma fillHandlers_end: "\<not> i < c \<Longrightarrow> fillHandlers rhs c i = Some rhs"
  by (subst fillHandlers.simps) simp

lemma fillHandlers_beyond: "i < c \<Longrightarrow> \<not> i < length rhs \<Longrightarrow> fillHandlers rhs c i = None"
  by (subst fillHandlers.simps) simp

lemma fillHandlers_set:
  "i < c \<Longrightarrow> i < length rhs \<Longrightarrow> fillHandlers rhs c i = fillHandlers (rhs[i := True]) c (Suc i)"
  by (subst fillHandlers.simps) simp

lemma fillHandlers_spec:
  "i \<le> c \<Longrightarrow> i \<le> length rhs \<Longrightarrow>
   fillHandlers rhs c i =
     (if c \<le> length rhs then Some (take i rhs @ replicate (c - i) True @ drop c rhs) else None)"
proof (induction "c - i" arbitrary: i rhs)
  case 0
  then have "i = c" by simp
  then show ?case using 0 by (simp add: fillHandlers_end)
next
  case (Suc n)
  then have lt: "i < c" by simp
  have n: "n = c - Suc i" using Suc.hyps(2) by simp
  show ?case
  proof (cases "i < length rhs")
    case False
    then have "\<not> c \<le> length rhs" using lt by simp
    then show ?thesis using False lt by (simp add: fillHandlers_beyond)
  next
    case True
    have ih: "fillHandlers (rhs[i := True]) c (Suc i) =
       (if c \<le> length rhs
        then Some (take (Suc i) (rhs[i := True]) @ replicate (c - Suc i) True
                     @ drop c (rhs[i := True]))
        else None)"
      using Suc.hyps(1) [OF n, of "rhs[i := True]"] lt True by simp
    have t: "take (Suc i) (rhs[i := True]) = take i rhs @ [True]"
      using True by (simp add: take_Suc_conv_app_nth)
    have d: "drop c (rhs[i := True]) = drop c rhs" using lt by simp
    have r: "replicate (c - i) True = True # replicate (c - Suc i) True"
      using lt by (simp add: Suc_diff_Suc flip: replicate_Suc)
    show ?thesis unfolding fillHandlers_set [OF lt True] ih t d r by simp
  qed
qed

lemma fillHandlers_fresh:
  "fillHandlers (replicate n False) c 0 =
     (if c \<le> n then Some (replicate c True @ replicate (n - c) False) else None)"
  using fillHandlers_spec [of 0 c "replicate n False"] by simp

lemma newReadHandlers_spec:
  "newReadHandlers d cfg =
     (if 0 \<le> Clients (Step2 cfg) \<and> int (handlerConns d cfg) \<le> Clients (Step2 cfg)
      then Some (replicate (handlerConns d cfg) True
                 @ replicate (nat (Clients (Step2 cfg)) - handlerConns d cfg) False)
      else None)"
  by (auto simp: newReadHandlers_def handlerConns_def fillHandlers_fresh Let_def
                 fillHandlers_end)

lemma newReadHandlers_length:
  "newReadHandlers d cfg = Some h \<Longrightarrow> length h = nat (Clients (Step2 cfg))"
  by (auto simp: newReadHandlers_spec split: if_splits)


lemma startRead_Started:
  "newReadHandlers d cfg = Some h \<Longrightarrow>
   startRead d cfg evs
     = Started evs (startPhase cfg h (generateReads cfg (sameKey (nat (KeySize (Step2 cfg))))))"
  by (auto simp: startRead_def newReadHandlers_def)



subsection \<open>A phase delivers every operation\<close>

lemma readAll_lengths:
  "readAll fs v = Inr v' \<Longrightarrow> length (bytes v) = length (strings v) \<Longrightarrow>
   sampleSize v' = int (length (strings v')) \<and> length (bytes v') = length (strings v')
   \<and> length (strings v') = length (strings v) + length fs"
proof (induction fs v rule: readAll.induct)
  case (1 v)
  then show ?case by auto
next
  case (2 e fs v)
  then show ?case by simp
next
  case (3 bts fs v)
  then show ?case by simp
qed

lemma newValues_OK:
  assumes "newValues rnd walk cfg = Inr vals"
    and "ValueTestDataPath (Step2 cfg) = [] \<or> walk \<noteq> Inr []"
  shows "valuesOK vals"
proof (cases "ValueTestDataPath (Step2 cfg) = []")
  case True
  then show ?thesis using assms(1) by (auto simp: newValues_def valuesOK_def)
next
  case False
  then obtain fs where w: "walk = Inr fs" and fs: "fs \<noteq> []"
    and r: "readAll fs \<lparr>bytes = [], strings = [], sampleSize = 0\<rparr> = Inr vals"
    using assms by (auto simp: newValues_def split: sum.splits)
  from readAll_lengths [OF r] fs show ?thesis by (simp add: valuesOK_def)
qed

lemma fillHandlers_length: "fillHandlers rhs c i = Some h \<Longrightarrow> length h = length rhs"
proof (induction rhs c i rule: fillHandlers.induct)
  case (1 rhs conns i)
  show ?case
  proof (cases "i < conns")
    case False
    then show ?thesis using "1.prems" by (simp add: fillHandlers_end)
  next
    case True
    show ?thesis
    proof (cases "i < length rhs")
      case False
      then show ?thesis using True "1.prems" by (simp add: fillHandlers_beyond)
    next
      case inside: True
      have "fillHandlers (rhs[i := True]) conns (Suc i) = Some h"
        using "1.prems" by (simp add: fillHandlers_set [OF True inside])
      then have "length h = length (rhs[i := True])" by (rule "1.IH" [OF True inside])
      then show ?thesis by simp
    qed
  qed
qed

lemma filled_handlers: "filled x = WriteHandlers h \<longleftrightarrow> x = Some h"
  by (cases x) auto

lemma newWriteHandlers_length:
  assumes "newWriteHandlers d put rnd cfg = (evs, WriteHandlers h)"
  shows "length h = nat (Clients (Step2 cfg))"
proof -
  have "h = replicate (nat (Clients (Step2 cfg))) False
      \<or> (\<exists>c. fillHandlers (replicate (nat (Clients (Step2 cfg))) False) c 0 = Some h)"
    using assms
    by (auto simp: newWriteHandlers_def Let_def filled_handlers
             split: if_splits prod.splits prime_end.splits option.splits)
  then show ?thesis using fillHandlers_length by fastforce
qed

lemma step2_Started:
  assumes "step2 d put rnd walk cfg = Started evs s0"
  shows "0 \<le> Clients (Step2 cfg) \<and>
    (\<exists>vals h. newValues rnd walk cfg = Inr vals \<and> length h = nat (Clients (Step2 cfg)) \<and>
       (BenchType (Step2 cfg) = ''write'' \<and> s0 = startPhase cfg h (generateWrites cfg vals)
        \<or> BenchType (Step2 cfg) = ''read''
           \<and> s0 = startPhase cfg h (generateReads cfg (sameKey (nat (KeySize (Step2 cfg)))))))"
proof -
  obtain vals where nv: "newValues rnd walk cfg = Inr vals"
    using assms by (auto simp: step2_def split: sum.splits)
  have bt: "BenchType (Step2 cfg) = ''write'' \<or> BenchType (Step2 cfg) = ''read''"
    using assms nv by (auto simp: step2_def split: if_splits)
  from bt show ?thesis
  proof
    assume w: "BenchType (Step2 cfg) = ''write''"
    then have sw: "step2_write d put rnd cfg vals = Started evs s0"
      using assms nv by (simp add: step2_def)
    then have cl: "0 \<le> Clients (Step2 cfg)" by (auto simp: step2_write_def split: if_splits)
    from sw obtain h where nh: "newWriteHandlers d put rnd cfg = (evs, WriteHandlers h)"
      and s0: "s0 = startPhase cfg h (generateWrites cfg vals)"
      by (auto simp: step2_write_def split: if_splits prod.splits write_handlers.splits)
    show ?thesis using cl nv w s0 newWriteHandlers_length [OF nh] by blast
  next
    assume r: "BenchType (Step2 cfg) = ''read''"
    then have "BenchType (Step2 cfg) \<noteq> ''write''" by simp
    then have sr: "step2_read d put cfg vals = Started evs s0"
      using assms nv r by (simp add: step2_def)
    then have "\<exists>evs'. startRead d cfg evs' = Started evs s0"
      by (auto simp: step2_read_def
               split: if_splits option.splits prod.splits prime_end.splits)
    then obtain h where nh: "newReadHandlers d cfg = Some h"
      and s0: "s0 = startPhase cfg h (generateReads cfg (sameKey (nat (KeySize (Step2 cfg)))))"
      and cl: "0 \<le> Clients (Step2 cfg)"
      by (auto simp: startRead_def split: if_splits option.splits)
    show ?thesis using cl nv r s0 newReadHandlers_length [OF nh] by blast
  qed
qed















lemma phase_conservation:
  assumes W: "1 \<le> Clients (Step2 cfg)" and ok: "scriptOK scr"
    and h: "length h = nat (Clients (Step2 cfg))" and staffed: "False \<notin> set h"
    and run: "reaches (startPhase cfg h scr) s"
  shows "\<not> crashed s
    \<and> sent s @ sends (script s) = sends scr
    \<and> (driver s \<noteq> DWait \<longrightarrow>
          script s = [] \<and> requests_closed s \<and> requests s = [] \<and> sent s = sends scr
          \<and> length (results s) = length (sends scr)
          \<and> mset (map outcomeOp (results s)) = mset (sends scr))
    \<and> (results_closed s \<longrightarrow> driver s \<noteq> DWait)
    \<and> (\<forall>rep. report s = Some rep \<longrightarrow> results_closed s \<and> rep = results s)
    \<and> (driver s = DDone \<longrightarrow> report s \<noteq> None)
    \<and> (driver s \<noteq> DDone \<longrightarrow> (\<exists>s'. step s s'))
    \<and> (\<forall>s'. step s s' \<longrightarrow> workLeft s' < workLeft s)"
proof -
  let ?W = "nat (Clients (Step2 cfg))"
  have Wpos: "0 < ?W" using W by simp
  have b0: "barrierInv ?W (startPhase cfg h scr)"
    using barrierInv_start [OF scriptOK_closesLast [OF ok], of h cfg] h by simp
  have both: "barrierInv ?W s \<and> phaseInv scr s"
    using invariants_reaches [OF Wpos b0 phaseInv_start [OF ok h staffed] run] .
  then have bar: "barrierInv ?W s" and inv: "phaseInv scr s" by simp_all
  have c1: "\<not> crashed s" using inv by (simp add: phaseInv_def)
  have c2: "sent s @ sends (script s) = sends scr" using inv by (simp add: phaseInv_def)
  have c3: "driver s \<noteq> DWait \<longrightarrow>
          script s = [] \<and> requests_closed s \<and> requests s = [] \<and> sent s = sends scr
          \<and> length (results s) = length (sends scr)
          \<and> mset (map outcomeOp (results s)) = mset (sends scr)"
  proof
    assume d: "driver s \<noteq> DWait"
    have closed: "requests_closed s" and empty: "script s = []"
      using bar d by (auto simp: barrierInv_def)
    have exited: "workers s ! i = WExit" if "i < length (workers s)" for i
      using all_exited_after_wait [OF bar d that] .
    have len: "length (workers s) = ?W" using bar by (simp add: barrierInv_def)
    have "workers s ! 0 \<in> set (workers s)" using len Wpos by (intro nth_mem) simp
    then have "WExit \<in> set (workers s)" using exited [of 0] len Wpos by simp
    then have q: "requests s = []" using inv by (simp add: phaseInv_def)
    have "\<forall>w \<in> set (workers s). w = WExit" using exited by (auto simp: in_set_conv_nth)
    then have h: "sum_list (map held (workers s)) = {#}" by (rule held_all_exited)
    have all_sent: "sent s = sends scr" using c2 empty by simp
    have m: "mset (map outcomeOp (results s)) = mset (sends scr)"
      using inv q h all_sent by (simp add: phaseInv_def)
    have "length (map outcomeOp (results s)) = length (sends scr)"
      using m by (rule mset_eq_length)
    then show "script s = [] \<and> requests_closed s \<and> requests s = [] \<and> sent s = sends scr
          \<and> length (results s) = length (sends scr)
          \<and> mset (map outcomeOp (results s)) = mset (sends scr)"
      using closed empty q all_sent m by simp
  qed
  have c4: "results_closed s \<longrightarrow> driver s \<noteq> DWait" using inv by (auto simp: phaseInv_def)
  have c5: "\<forall>rep. report s = Some rep \<longrightarrow> results_closed s \<and> rep = results s"
    using inv by (auto simp: phaseInv_def)
  have c6: "driver s = DDone \<longrightarrow> report s \<noteq> None" using inv by (simp add: phaseInv_def)
  have c7: "driver s \<noteq> DDone \<longrightarrow> (\<exists>s'. step s s')"
    using progress [OF Wpos bar inv] by blast
  have c8: "\<forall>s'. step s s' \<longrightarrow> workLeft s' < workLeft s" using step_workLeft by blast
  show ?thesis
    by (rule conjI [OF c1 conjI [OF c2 conjI [OF c3 conjI [OF c4 conjI [OF c5
          conjI [OF c6 conjI [OF c7 c8]]]]]]])
qed

lemma length_sends_generateReads:
  "validDatabase (Database cfg) \<Longrightarrow>
   length (sends (generateReads cfg k)) = nat (TotalRequests (Step2 cfg))"
  using length_sends_generateReadsLoop [of cfg k 0] by (simp add: generateReads_def)

lemma length_sends_generateWrites:
  "valuesOK vals \<Longrightarrow> validDatabase (Database cfg) \<Longrightarrow>
   length (sends (generateWrites cfg vals)) = nat (TotalRequests (Step2 cfg))"
  by (simp add: sends_generateWrites)

lemma step2_script:
  assumes started: "step2 d put rnd walk cfg = Started evs s0"
    and db: "validDatabase (Database cfg)"
    and corpus: "ValueTestDataPath (Step2 cfg) = [] \<or> walk \<noteq> Inr []"
  shows "\<exists>h scr. s0 = startPhase cfg h scr \<and> length h = nat (Clients (Step2 cfg))
     \<and> scriptOK scr \<and> length (sends scr) = nat (TotalRequests (Step2 cfg))"
proof -
  from step2_Started [OF started] obtain vals h where
    nv: "newValues rnd walk cfg = Inr vals" and h: "length h = nat (Clients (Step2 cfg))" and
    ph: "BenchType (Step2 cfg) = ''write'' \<and> s0 = startPhase cfg h (generateWrites cfg vals)
        \<or> BenchType (Step2 cfg) = ''read''
           \<and> s0 = startPhase cfg h (generateReads cfg (sameKey (nat (KeySize (Step2 cfg)))))"
    by blast
  have vok: "valuesOK vals" using nv corpus by (rule newValues_OK)
  from ph show ?thesis
  proof (elim disjE conjE)
    assume "s0 = startPhase cfg h (generateWrites cfg vals)"
    moreover have "scriptOK (generateWrites cfg vals)"
      using scriptOK_generateWritesLoop [OF vok] by (simp add: generateWrites_def)
    ultimately show ?thesis using length_sends_generateWrites [OF vok db] h by blast
  next
    assume "s0 = startPhase cfg h (generateReads cfg (sameKey (nat (KeySize (Step2 cfg)))))"
    moreover have "scriptOK (generateReads cfg (sameKey (nat (KeySize (Step2 cfg)))))"
      using scriptOK_generateReadsLoop by (simp add: generateReads_def)
    ultimately show ?thesis using length_sends_generateReads [OF db] h by blast
  qed
qed

lemma handlers_startPhase: "handlers (startPhase cfg h scr) = h"
  by (simp add: startPhase_def)

subsection \<open>Phases that deliver nothing\<close>

lemma sent_step:
  "step s s' \<Longrightarrow>
   length (sent s') + length (sends (script s')) \<le> length (sent s) + length (sends (script s))"
  by (induction rule: step.induct) simp_all

lemma sent_reaches:
  "reaches s0 s \<Longrightarrow>
   length (sent s) + length (sends (script s)) \<le> length (sent s0) + length (sends (script s0))"
proof (induction rule: reaches.induct)
  case (initial s)
  then show ?case by simp
next
  case (after s t u)
  then show ?case using sent_step [of t u] by simp
qed

lemma no_WSend_update:
  "\<forall>out. WSend out \<notin> set ws \<Longrightarrow> \<forall>out. w \<noteq> WSend out \<Longrightarrow> \<forall>out. WSend out \<notin> set (ws[i := w])"
  using set_update_subset_insert [of ws i w] by auto

lemma unstaffed_step:
  assumes "step s s'" and "\<forall>i. \<not> hasHandler s i" and "results s = []"
    and "\<forall>out. WSend out \<notin> set (workers s)"
  shows "(\<forall>i. \<not> hasHandler s' i) \<and> results s' = [] \<and> (\<forall>out. WSend out \<notin> set (workers s'))"
  using assms
proof (induction rule: step.induct)
  case (gen_handoff s r rest i)
  then show ?case using no_WSend_update [of "workers s" "WExec r" i] by (simp add: hasHandler_def)
next
  case (w_recv s i r q)
  then show ?case using no_WSend_update [of "workers s" "WExec r" i] by (simp add: hasHandler_def)
next
  case (w_exit s i)
  then show ?case using no_WSend_update [of "workers s" WExit i] by (simp add: hasHandler_def)
next
  case (w_exec s i r failed)
  then show ?case by simp
next
  case (w_publish s i out)
  then have "WSend out \<in> set (workers s)" using nth_mem [of i "workers s"] by simp
  then show ?case using w_publish by simp
qed (simp_all add: hasHandler_def)

lemma unstaffed_reaches:
  assumes "reaches s0 s" and "\<forall>i. \<not> hasHandler s0 i" and "results s0 = []"
    and "\<forall>out. WSend out \<notin> set (workers s0)"
  shows "(\<forall>i. \<not> hasHandler s i) \<and> results s = [] \<and> (\<forall>out. WSend out \<notin> set (workers s))"
  using assms
proof (induction rule: reaches.induct)
  case (initial s)
  then show ?case by simp
next
  case (after s t u)
  then have "(\<forall>i. \<not> hasHandler t i) \<and> results t = [] \<and> (\<forall>out. WSend out \<notin> set (workers t))"
    by simp
  then show ?case using unstaffed_step [OF after.hyps(2)] by blast
qed

lemma crashed_stuck: "crashed s \<Longrightarrow> \<not> step s s'"
  by (auto elim: step.cases)

lemma emptyDirectory_start:
  "step2 plainDialer (failingFirst 0) ''v'' (Inr []) emptyDirectory
     = Started [] (startPhase emptyDirectory [True] [GPanic])"
proof -
  have nv: "newValues ''v'' (Inr []) emptyDirectory = Inr emptyValues"
    by (simp add: newValues_def emptyDirectory_def emptyValues_def)
  have scr: "generateWrites emptyDirectory emptyValues = [GPanic]" by code_simp
  have hc: "fillHandlers [False] (Suc 0) 0 = Some [True]"
    using fillHandlers_fresh [of "Suc 0" "Suc 0"] by simp
  have nh: "newWriteHandlers plainDialer (failingFirst 0) ''v'' emptyDirectory
      = ([], WriteHandlers [True])"
    by (simp add: newWriteHandlers_def emptyDirectory_def plainDialer_def hc)
  have "step2_write plainDialer (failingFirst 0) ''v'' emptyDirectory emptyValues
      = Started [] (startPhase emptyDirectory [True] [GPanic])"
    by (simp add: step2_write_def nh scr) (simp add: emptyDirectory_def)
  then show ?thesis by (simp add: step2_def nv) (simp add: emptyDirectory_def)
qed

lemma noConnection_start:
  "step2 plainDialer (failingFirst 0) ''v'' (Inr []) noConnection = Started [] unstaffed"
proof -
  have nv: "newValues ''v'' (Inr []) noConnection = Inr oneValue"
    by (simp add: newValues_def noConnection_def oneValue_def)
  have scr: "generateWrites noConnection oneValue = [GSend (etcdv2Op ''0'' ''v''), GClose]"
    by code_simp
  have hc: "fillHandlers [False] 0 0 = Some [False]" by (simp add: fillHandlers_end)
  have nh: "newWriteHandlers plainDialer (failingFirst 0) ''v'' noConnection
      = ([], WriteHandlers [False])"
    by (simp add: newWriteHandlers_def noConnection_def plainDialer_def hc)
  have st: "startPhase noConnection [False] [GSend (etcdv2Op ''0'' ''v''), GClose] = unstaffed"
    by (simp add: startPhase_def unstaffed_def oneOp_def noConnection_def)
  have "step2_write plainDialer (failingFirst 0) ''v'' noConnection oneValue = Started [] unstaffed"
    by (simp add: step2_write_def nh scr st) (simp add: noConnection_def)
  then show ?thesis by (simp add: step2_def nv) (simp add: noConnection_def)
qed

lemma unstaffed_run: "reaches unstaffed unstaffedCrash"
proof -
  let ?r = "etcdv2Op ''0'' ''v''"
  let ?s1 = "unstaffed\<lparr>script := [GClose], workers := [WExec ?r], sent := [?r]\<rparr>"
  have 1: "step unstaffed ?s1"
    using step.gen_handoff [of unstaffed ?r "[GClose]" 0] by (simp add: unstaffed_def oneOp_def)
  have 2: "step ?s1 (?s1\<lparr>crashed := True\<rparr>)"
    using step.w_exec_nil [of ?s1 0 ?r] by (simp add: unstaffed_def oneOp_def hasHandler_def)
  have "reaches unstaffed (?s1\<lparr>crashed := True\<rparr>)"
    by (intro reaches.after [OF _ 2] reaches.after [OF _ 1] reaches.initial)
  moreover have "?s1\<lparr>crashed := True\<rparr> = unstaffedCrash"
    by (simp add: unstaffedCrash_def unstaffed_def oneOp_def)
  ultimately show ?thesis by simp
qed

text \<open>
  Claim C1, as stated, fails on the code, at one operation and one worker. With a data
  directory that holds no file \<open>newValues\<close> returns an empty corpus with \<open>sampleSize = 0\<close>
  and \<open>generateWrites\<close> panics on \<open>i % vals.sampleSize\<close> at index 0: the phase is started
  and no run of it ever sends an operation. With one client and a dialer that returns
  no connection the only handler stays \<open>nil\<close>: no run ever delivers an outcome, and in
  one of them the operation is sent, the worker that takes it panics, and nothing can
  happen after that.
\<close>

theorem phase_delivery_counterexample:
  "TotalRequests (Step2 emptyDirectory) = 1 \<and> Clients (Step2 emptyDirectory) = 1
   \<and> step2 plainDialer (failingFirst 0) ''v'' (Inr []) emptyDirectory
       = Started [] (startPhase emptyDirectory [True] [GPanic])
   \<and> \<not> (\<exists>s. reaches (startPhase emptyDirectory [True] [GPanic]) s \<and> sent s \<noteq> [])
   \<and> TotalRequests (Step2 noConnection) = 1 \<and> Clients (Step2 noConnection) = 1
   \<and> step2 plainDialer (failingFirst 0) ''v'' (Inr []) noConnection = Started [] unstaffed
   \<and> \<not> (\<exists>s. reaches unstaffed s \<and> results s \<noteq> [])
   \<and> reaches unstaffed unstaffedCrash
   \<and> sent unstaffedCrash = [etcdv2Op ''0'' ''v''] \<and> results unstaffedCrash = []
   \<and> driver unstaffedCrash = DWait
   \<and> \<not> (\<exists>s'. step unstaffedCrash s')"
proof -
  have a: "TotalRequests (Step2 emptyDirectory) = 1 \<and> Clients (Step2 emptyDirectory) = 1"
    by (simp add: emptyDirectory_def)
  have b: "\<not> (\<exists>s. reaches (startPhase emptyDirectory [True] [GPanic]) s \<and> sent s \<noteq> [])"
  proof
    assume "\<exists>s. reaches (startPhase emptyDirectory [True] [GPanic]) s \<and> sent s \<noteq> []"
    then obtain s where r: "reaches (startPhase emptyDirectory [True] [GPanic]) s"
      and n: "sent s \<noteq> []" by blast
    have "length (sent s) + length (sends (script s)) \<le> 0"
      using sent_reaches [OF r] by (simp add: startPhase_def)
    then show False using n by simp
  qed
  have c: "TotalRequests (Step2 noConnection) = 1 \<and> Clients (Step2 noConnection) = 1"
    by (simp add: noConnection_def)
  have d: "\<not> (\<exists>s. reaches unstaffed s \<and> results s \<noteq> [])"
  proof
    assume "\<exists>s. reaches unstaffed s \<and> results s \<noteq> []"
    then obtain s where r: "reaches unstaffed s" and n: "results s \<noteq> []" by blast
    have h: "\<forall>i. \<not> hasHandler unstaffed i"
    proof
      fix i show "\<not> hasHandler unstaffed i"
        by (cases i) (simp_all add: hasHandler_def unstaffed_def oneOp_def)
    qed
    have "results s = []"
      using unstaffed_reaches [OF r h] by (simp add: unstaffed_def oneOp_def)
    then show False using n by simp
  qed
  have e: "sent unstaffedCrash = [etcdv2Op ''0'' ''v''] \<and> results unstaffedCrash = []
      \<and> driver unstaffedCrash = DWait"
    by (simp add: unstaffedCrash_def unstaffed_def oneOp_def)
  have f: "\<not> (\<exists>s'. step unstaffedCrash s')"
    using crashed_stuck [of unstaffedCrash] by (simp add: unstaffedCrash_def)
  show ?thesis
    using a emptyDirectory_start b c noConnection_start d unstaffed_run e f by simp
qed

text \<open>
  Claim C1, amended: for a phase that \<open>step2\<close> has started, write or read, with at
  least one worker, a supported backend, a corpus that is not empty (no data path, or a
  data path with at least one file) and a handler for every worker: no goroutine
  panics; the generator sends the \<open>TotalRequests\<close> operations of its loop, in order, and
  closes the queue; when \<open>wg.Wait()\<close> has returned (so before the driver closes
  \<open>results\<close>) the generator has ended, the queue is closed and empty, exactly
  \<open>TotalRequests\<close> operations were sent and exactly as many outcomes were received, and
  the operations of the received outcomes are the operations sent, each as often as it
  was sent; \<open>results\<close> is closed only after that, and the report, made after the close,
  is the list of the outcomes received. Every run gets there: a state in which the
  driver has not finished has a next step, and every step lowers \<open>workLeft\<close>. The number
  of workers plays no part beyond being at least one.
\<close>

theorem phase_delivers_every_operation:
  assumes started: "step2 d put rnd walk cfg = Started evs s0"
    and workers: "1 \<le> Clients (Step2 cfg)"
    and db: "validDatabase (Database cfg)"
    and corpus: "ValueTestDataPath (Step2 cfg) = [] \<or> walk \<noteq> Inr []"
    and staffed: "False \<notin> set (handlers s0)"
    and run: "reaches s0 s"
  shows "\<not> crashed s
    \<and> length (sent s @ sends (script s)) = nat (TotalRequests (Step2 cfg))
    \<and> (driver s \<noteq> DWait \<longrightarrow>
          script s = [] \<and> requests_closed s \<and> requests s = []
          \<and> length (sent s) = nat (TotalRequests (Step2 cfg))
          \<and> length (results s) = nat (TotalRequests (Step2 cfg))
          \<and> mset (map outcomeOp (results s)) = mset (sent s))
    \<and> (results_closed s \<longrightarrow> driver s \<noteq> DWait)
    \<and> (\<forall>rep. report s = Some rep \<longrightarrow> results_closed s \<and> rep = results s)
    \<and> (driver s = DDone \<longrightarrow> report s \<noteq> None)
    \<and> (driver s \<noteq> DDone \<longrightarrow> (\<exists>s'. step s s'))
    \<and> (\<forall>s'. step s s' \<longrightarrow> workLeft s' < workLeft s)"
proof -
  from step2_script [OF started db corpus] obtain h scr where
    s0: "s0 = startPhase cfg h scr" and h: "length h = nat (Clients (Step2 cfg))"
    and ok: "scriptOK scr"
    and T: "length (sends scr) = nat (TotalRequests (Step2 cfg))" by blast
  have st: "False \<notin> set h" using staffed by (simp add: s0 handlers_startPhase)
  note pc = phase_conservation [OF workers ok h st run [unfolded s0]]
  have c2: "length (sent s @ sends (script s)) = nat (TotalRequests (Step2 cfg))"
    using pc T by simp
  have c3: "driver s \<noteq> DWait \<longrightarrow>
          script s = [] \<and> requests_closed s \<and> requests s = []
          \<and> length (sent s) = nat (TotalRequests (Step2 cfg))
          \<and> length (results s) = nat (TotalRequests (Step2 cfg))
          \<and> mset (map outcomeOp (results s)) = mset (sent s)"
    using pc T by simp
  show ?thesis using pc c2 c3 by blast
qed

lemma oneWrite_start:
  "step2 plainDialer (failingFirst 0) ''v'' (Inr []) (writeConfig ''etcdv2'' 1 1 1 0)
     = Started [] (oneOp (etcdv2Op ''0'' ''v''))"
proof -
  let ?cfg = "writeConfig ''etcdv2'' 1 1 1 0"
  have scr: "generateWrites ?cfg oneValue = [GSend (etcdv2Op ''0'' ''v''), GClose]" by code_simp
  have nv: "newValues ''v'' (Inr []) ?cfg = Inr oneValue"
    by (simp add: newValues_def writeConfig_def oneValue_def)
  have hc: "fillHandlers [False] (Suc 0) 0 = Some [True]"
    using fillHandlers_fresh [of "Suc 0" "Suc 0"] by simp
  have nh: "newWriteHandlers plainDialer (failingFirst 0) ''v'' ?cfg = ([], WriteHandlers [True])"
    by (simp add: newWriteHandlers_def writeConfig_def plainDialer_def hc)
  have st: "startPhase ?cfg [True] [GSend (etcdv2Op ''0'' ''v''), GClose] = oneOp (etcdv2Op ''0'' ''v'')"
    by (simp add: startPhase_def oneOp_def writeConfig_def)
  have "step2_write plainDialer (failingFirst 0) ''v'' ?cfg oneValue
      = Started [] (oneOp (etcdv2Op ''0'' ''v''))"
    by (simp add: step2_write_def nh scr st) (simp add: writeConfig_def)
  then show ?thesis by (simp add: step2_def nv) (simp add: writeConfig_def)
qed

lemma oneRead_start:
  "step2 plainDialer (failingFirst 0) ''v'' (Inr []) (readConfig ''etcdv2'' 1 1 1)
     = Started [PrimeAttempt 0 (etcdv2Op ''a'' ''v'') None] (oneOp (etcdv2Op ''a'' []))"
proof -
  let ?cfg = "readConfig ''etcdv2'' 1 1 1"
  have k: "sameKey (nat (KeySize (Step2 ?cfg))) = ''a''" by code_simp
  have scr: "generateReads ?cfg ''a'' = [GSend (etcdv2Op ''a'' []), GClose]" by code_simp
  have nv: "newValues ''v'' (Inr []) ?cfg = Inr oneValue"
    by (simp add: newValues_def readConfig_def oneValue_def)
  have db: "validDatabase (Database ?cfg)" by (simp add: validDatabase_def readConfig_def)
  have pr: "primeRequest ?cfg oneValue = Some (etcdv2Op ''a'' ''v'')" by code_simp
  have pc: "primeClients plainDialer ?cfg = Suc 0"
    by (simp add: primeClients_def readConfig_def plainDialer_def)
  have pl: "primeLoop (failingFirst 0) (Suc 0) (etcdv2Op ''a'' ''v'') 0 None
      = ([PrimeAttempt 0 (etcdv2Op ''a'' ''v'') None], PrimeErr None)"
    by (simp add: primeLoop_ok failingFirst_def)
  have nh: "newReadHandlers plainDialer ?cfg = Some [True]"
    by (simp add: newReadHandlers_spec handlerConns_def readConfig_def plainDialer_def)
  have st: "startPhase ?cfg [True] [GSend (etcdv2Op ''a'' []), GClose] = oneOp (etcdv2Op ''a'' [])"
    by (simp add: startPhase_def oneOp_def readConfig_def)
  have "step2_read plainDialer (failingFirst 0) ?cfg oneValue
      = Started [PrimeAttempt 0 (etcdv2Op ''a'' ''v'') None] (oneOp (etcdv2Op ''a'' []))"
    using db by (simp add: step2_read_def pr pc pl startRead_Started [OF nh] k scr st)
                (simp add: oneValue_def)
  then show ?thesis by (simp add: step2_def nv) (simp add: readConfig_def)
qed

lemma oneOp_run: "reaches (oneOp r) (oneOpDone r)"
proof -
  let ?s0 = "oneOp r"
  let ?s1 = "?s0\<lparr>script := [GClose], requests := [r], sent := [r]\<rparr>"
  let ?s2 = "?s1\<lparr>requests := [], workers := [WExec r]\<rparr>"
  let ?s3 = "?s2\<lparr>workers := [WSend (Outcome r False)]\<rparr>"
  let ?s4 = "?s3\<lparr>workers := [WRecv], results := [Outcome r False]\<rparr>"
  let ?s5 = "?s4\<lparr>script := [], requests_closed := True\<rparr>"
  let ?s6 = "?s5\<lparr>workers := [WExit], wg := 0\<rparr>"
  let ?s7 = "?s6\<lparr>driver := DFinish\<rparr>"
  let ?s8 = "?s7\<lparr>results_closed := True, driver := DClosed\<rparr>"
  let ?s9 = "?s8\<lparr>report := Some [Outcome r False]\<rparr>"
  let ?s10 = "?s9\<lparr>driver := DDone\<rparr>"
  have 1: "step ?s0 ?s1"
    using step.gen_send [of ?s0 r "[GClose]"] by (simp add: oneOp_def)
  have 2: "step ?s1 ?s2"
    using step.w_recv [of ?s1 0 r "[]"] by (simp add: oneOp_def)
  have 3: "step ?s2 ?s3"
    using step.w_exec [of ?s2 0 r False] by (simp add: oneOp_def hasHandler_def)
  have 4: "step ?s3 ?s4"
    using step.w_publish [of ?s3 0 "Outcome r False"] by (simp add: oneOp_def)
  have 5: "step ?s4 ?s5"
    using step.gen_close [of ?s4 "[]"] by (simp add: oneOp_def)
  have 6: "step ?s5 ?s6"
    using step.w_exit [of ?s5 0] by (simp add: oneOp_def)
  have 7: "step ?s6 ?s7"
    using step.d_wait [of ?s6] by (simp add: oneOp_def)
  have 8: "step ?s7 ?s8"
    using step.d_close [of ?s7] by (simp add: oneOp_def)
  have 9: "step ?s8 ?s9"
    using step.agg_final [of ?s8] by (simp add: oneOp_def)
  have 10: "step ?s9 ?s10"
    using step.d_done [of ?s9] by (simp add: oneOp_def)
  have "reaches ?s0 ?s10"
    by (intro reaches.after [OF _ 10] reaches.after [OF _ 9] reaches.after [OF _ 8]
          reaches.after [OF _ 7] reaches.after [OF _ 6] reaches.after [OF _ 5]
          reaches.after [OF _ 4] reaches.after [OF _ 3] reaches.after [OF _ 2]
          reaches.after [OF _ 1] reaches.initial)
  moreover have "?s10 = oneOpDone r" by (simp add: oneOp_def oneOpDone_def)
  ultimately show ?thesis by simp
qed

lemma oneOp_first:
  "step (oneOp r) ((oneOp r)\<lparr>script := [GClose], requests := [r], sent := [r]\<rparr>)"
  using step.gen_send [of "oneOp r" r "[GClose]"] by (simp add: oneOp_def)

theorem phase_delivers_every_operation_witness:
  "step2 plainDialer (failingFirst 0) ''v'' (Inr []) (writeConfig ''etcdv2'' 1 1 1 0)
     = Started [] (oneOp (etcdv2Op ''0'' ''v''))
   \<and> reaches (oneOp (etcdv2Op ''0'' ''v'')) (oneOpDone (etcdv2Op ''0'' ''v''))
   \<and> driver (oneOpDone (etcdv2Op ''0'' ''v'')) = DDone
   \<and> length (sent (oneOpDone (etcdv2Op ''0'' ''v''))) = 1
   \<and> length (results (oneOpDone (etcdv2Op ''0'' ''v''))) = 1
   \<and> report (oneOpDone (etcdv2Op ''0'' ''v'')) = Some (results (oneOpDone (etcdv2Op ''0'' ''v'')))
   \<and> \<not> crashed (oneOpDone (etcdv2Op ''0'' ''v''))
   \<and> step2 plainDialer (failingFirst 0) ''v'' (Inr []) (readConfig ''etcdv2'' 1 1 1)
     = Started [PrimeAttempt 0 (etcdv2Op ''a'' ''v'') None] (oneOp (etcdv2Op ''a'' []))
   \<and> reaches (oneOp (etcdv2Op ''a'' [])) (oneOpDone (etcdv2Op ''a'' []))
   \<and> driver (oneOpDone (etcdv2Op ''a'' [])) = DDone
   \<and> length (sent (oneOpDone (etcdv2Op ''a'' []))) = 1
   \<and> length (results (oneOpDone (etcdv2Op ''a'' []))) = 1
   \<and> report (oneOpDone (etcdv2Op ''a'' [])) = Some (results (oneOpDone (etcdv2Op ''a'' [])))
   \<and> \<not> crashed (oneOpDone (etcdv2Op ''a'' []))
   \<and> (\<exists>s'. step (oneOp (etcdv2Op ''a'' [])) s')
   \<and> workLeft ((oneOp (etcdv2Op ''a'' []))\<lparr>script := [GClose],
          requests := [etcdv2Op ''a'' []], sent := [etcdv2Op ''a'' []]\<rparr>)
       < workLeft (oneOp (etcdv2Op ''a'' []))"
proof -
  let ?w = "writeConfig ''etcdv2'' 1 1 1 0"
  let ?r = "readConfig ''etcdv2'' 1 1 1"
  have corpus: "ValueTestDataPath (Step2 cfg) = [] \<or> (Inr [] :: error + (error + string) list) \<noteq> Inr []"
    if "ValueTestDataPath (Step2 cfg) = []" for cfg
    using that by simp
  have staffed: "False \<notin> set (handlers (oneOp r))" for r by (simp add: oneOp_def)
  have ww: "1 \<le> Clients (Step2 ?w)" and wdb: "validDatabase (Database ?w)"
    and wp: "ValueTestDataPath (Step2 ?w) = []" and wT: "nat (TotalRequests (Step2 ?w)) = 1"
    by (simp_all add: writeConfig_def validDatabase_def)
  have rw: "1 \<le> Clients (Step2 ?r)" and rdb: "validDatabase (Database ?r)"
    and rp: "ValueTestDataPath (Step2 ?r) = []" and rT: "nat (TotalRequests (Step2 ?r)) = 1"
    by (simp_all add: readConfig_def validDatabase_def)
  note tw = phase_delivers_every_operation
    [OF oneWrite_start ww wdb corpus [OF wp] staffed oneOp_run]
  note tr = phase_delivers_every_operation
    [OF oneRead_start rw rdb corpus [OF rp] staffed oneOp_run]
  have d: "driver (oneOpDone r) = DDone" for r by (simp add: oneOpDone_def)
  have w1: "length (sent (oneOpDone (etcdv2Op ''0'' ''v''))) = 1
      \<and> length (results (oneOpDone (etcdv2Op ''0'' ''v''))) = 1"
    using tw d wT by simp
  have w2: "\<not> crashed (oneOpDone (etcdv2Op ''0'' ''v''))" using tw by simp
  have w3: "report (oneOpDone (etcdv2Op ''0'' ''v'')) = Some (results (oneOpDone (etcdv2Op ''0'' ''v'')))"
    using tw d by (cases "report (oneOpDone (etcdv2Op ''0'' ''v''))") simp_all
  have r1: "length (sent (oneOpDone (etcdv2Op ''a'' []))) = 1
      \<and> length (results (oneOpDone (etcdv2Op ''a'' []))) = 1"
    using tr d rT by simp
  have r2: "\<not> crashed (oneOpDone (etcdv2Op ''a'' []))" using tr by simp
  have r3: "report (oneOpDone (etcdv2Op ''a'' [])) = Some (results (oneOpDone (etcdv2Op ''a'' [])))"
    using tr d by (cases "report (oneOpDone (etcdv2Op ''a'' []))") simp_all
  note t0 = phase_delivers_every_operation
    [OF oneRead_start rw rdb corpus [OF rp] staffed reaches.initial]
  have going: "driver (oneOp (etcdv2Op ''a'' [])) \<noteq> DDone" by (simp add: oneOp_def)
  have r4: "\<exists>s'. step (oneOp (etcdv2Op ''a'' [])) s'" using t0 going by blast
  have r5: "workLeft ((oneOp (etcdv2Op ''a'' []))\<lparr>script := [GClose],
          requests := [etcdv2Op ''a'' []], sent := [etcdv2Op ''a'' []]\<rparr>)
       < workLeft (oneOp (etcdv2Op ''a'' []))"
    using t0 oneOp_first [of "etcdv2Op ''a'' []"] by blast
  show ?thesis
    using oneWrite_start oneOp_run d w1 w2 w3 oneRead_start r1 r2 r3 r4 r5 by simp
qed









subsection \<open>The broadcast\<close>

lemma peerTask_in_range:
  "i < length (AgentEndpoints cfg) \<Longrightarrow>
   peerTask net cfg rq i =
     Some (case sendReq net (AgentEndpoints cfg ! i) rq i of
             Some err \<Rightarrow> OnErrc err | None \<Rightarrow> OnDonec)"
  by (simp add: peerTask_def index_def split: option.splits)

lemma collect_all:
  "\<forall>i \<in> set order. i < length (AgentEndpoints cfg) \<Longrightarrow> cnt + length order = n \<Longrightarrow>
   collect cnt n (map (peerTask net cfg rq) order) errs =
     BcastReturned
       (firstError (errs @ List.map_filter (\<lambda>i. sendReq net (AgentEndpoints cfg ! i) rq i) order))
       (errs @ List.map_filter (\<lambda>i. sendReq net (AgentEndpoints cfg ! i) rq i) order) n"
proof (induction order arbitrary: cnt errs)
  case Nil
  then show ?case by (simp add: List.map_filter_simps)
next
  case (Cons i order)
  have ne: "cnt \<noteq> n" using Cons.prems(2) by simp
  have rest: "\<forall>i \<in> set order. i < length (AgentEndpoints cfg)" "Suc cnt + length order = n"
    using Cons.prems by simp_all
  have t: "peerTask net cfg rq i =
     Some (case sendReq net (AgentEndpoints cfg ! i) rq i of
             Some err \<Rightarrow> OnErrc err | None \<Rightarrow> OnDonec)"
    using Cons.prems(1) by (intro peerTask_in_range) simp
  show ?case
  proof (cases "sendReq net (AgentEndpoints cfg ! i) rq i")
    case None
    then show ?thesis
      using ne t Cons.IH [OF rest, of errs] by (simp add: List.map_filter_simps)
  next
    case (Some err)
    then show ?thesis
      using ne t Cons.IH [OF rest, of "errs @ [err]"] by (simp add: List.map_filter_simps)
  qed
qed

lemma collect_short:
  "\<forall>i \<in> set order. i < length (AgentEndpoints cfg) \<Longrightarrow> cnt + length order < n \<Longrightarrow>
   collect cnt n (map (peerTask net cfg rq) order) errs = BcastBlocked"
proof (induction order arbitrary: cnt errs)
  case Nil
  then show ?case by simp
next
  case (Cons i order)
  have ne: "cnt \<noteq> n" using Cons.prems(2) by simp
  have rest: "\<forall>i \<in> set order. i < length (AgentEndpoints cfg)" "Suc cnt + length order < n"
    using Cons.prems by simp_all
  have t: "peerTask net cfg rq i =
     Some (case sendReq net (AgentEndpoints cfg ! i) rq i of
             Some err \<Rightarrow> OnErrc err | None \<Rightarrow> OnDonec)"
    using Cons.prems(1) by (intro peerTask_in_range) simp
  show ?case
    using ne t Cons.IH [OF rest] by (simp split: option.splits)
qed

lemma map_filter_none: "\<forall>x \<in> set xs. f x = None \<Longrightarrow> List.map_filter f xs = []"
  by (induction xs) (simp_all add: List.map_filter_simps)

lemma firstError_map_filter:
  "\<exists>x \<in> set xs. f x \<noteq> None \<Longrightarrow>
   \<exists>k < length xs. firstError (List.map_filter f xs) = f (xs ! k) \<and> f (xs ! k) \<noteq> None
      \<and> (\<forall>j < k. f (xs ! j) = None)"
proof (induction xs)
  case Nil
  then show ?case by simp
next
  case (Cons x xs)
  show ?case
  proof (cases "f x")
    case (Some e)
    then have "firstError (List.map_filter f (x # xs)) = f ((x # xs) ! 0) \<and> f ((x # xs) ! 0) \<noteq> None
        \<and> (\<forall>j < 0. f ((x # xs) ! j) = None)"
      by (simp add: List.map_filter_simps firstError_def)
    then show ?thesis by blast
  next
    case None
    then have "\<exists>x \<in> set xs. f x \<noteq> None" using Cons.prems by auto
    from Cons.IH [OF this] obtain k where k: "k < length xs"
      "firstError (List.map_filter f xs) = f (xs ! k)" "f (xs ! k) \<noteq> None"
      "\<forall>j < k. f (xs ! j) = None" by blast
    have "Suc k < length (x # xs)" using k(1) by simp
    moreover have "firstError (List.map_filter f (x # xs)) = f ((x # xs) ! Suc k)"
      using None k(2) by (simp add: List.map_filter_simps)
    moreover have "f ((x # xs) ! Suc k) \<noteq> None" using k(3) by simp
    moreover have "\<forall>j < Suc k. f ((x # xs) ! j) = None"
      using None k(4) by (auto simp: less_Suc_eq_0_disj)
    ultimately show ?thesis by blast
  qed
qed

text \<open>
  Claim C3: for a broadcast to the \<open>N\<close> peers of the configuration, whatever the order
  in which their answers arrive: \<open>bcastReq\<close> returns after it has received exactly \<open>N\<close>
  messages and is still blocked after any smaller number of them; it returns \<open>nil\<close> if
  every peer succeeds; and if a peer fails it returns the error collected first, that of
  the first failing peer in the order of arrival, which is not \<open>nil\<close>. The return
  value is one error: it does not tell how many peers failed. (\<open>cfg.AgentEndpoints\<close>
  has one entry per peer, as \<open>CommandFunc\<close> builds it.)
\<close>

theorem broadcast_waits_for_all:
  assumes perm: "mset order = mset [0 ..< length (PeerIPs cfg)]"
    and eps: "length (AgentEndpoints cfg) = length (PeerIPs cfg)"
  shows "bcastReq net cfg req0 op order
           = BcastReturned (firstError (List.map_filter (peerAnswer net cfg req0 op) order))
               (List.map_filter (peerAnswer net cfg req0 op) order) (length (PeerIPs cfg))
    \<and> (\<forall>m < length (PeerIPs cfg).
          collect 0 (length (PeerIPs cfg))
            (map (peerTask net cfg (req0\<lparr>Operation := op\<rparr>)) (take m order)) [] = BcastBlocked)
    \<and> ((\<forall>i < length (PeerIPs cfg). peerAnswer net cfg req0 op i = None) \<longrightarrow>
          firstError (List.map_filter (peerAnswer net cfg req0 op) order) = None)
    \<and> ((\<exists>i < length (PeerIPs cfg). peerAnswer net cfg req0 op i \<noteq> None) \<longrightarrow>
          (\<exists>k < length order.
              firstError (List.map_filter (peerAnswer net cfg req0 op) order)
                = peerAnswer net cfg req0 op (order ! k)
              \<and> peerAnswer net cfg req0 op (order ! k) \<noteq> None
              \<and> (\<forall>j < k. peerAnswer net cfg req0 op (order ! j) = None)))"
proof -
  let ?N = "length (PeerIPs cfg)"
  let ?req = "req0\<lparr>Operation := op\<rparr>"
  let ?ans = "peerAnswer net cfg req0 op"
  have ans: "?ans = (\<lambda>i. sendReq net (AgentEndpoints cfg ! i) ?req i)"
    by (simp add: peerAnswer_def fun_eq_iff)
  have set_order: "set order = {0 ..< ?N}" using mset_eq_setD [OF perm] by simp
  have len: "length order = ?N" using mset_eq_length [OF perm] by simp
  have inr: "\<forall>i \<in> set order. i < length (AgentEndpoints cfg)" using set_order eps by simp
  have c1: "bcastReq net cfg req0 op order
           = BcastReturned (firstError (List.map_filter ?ans order)) (List.map_filter ?ans order) ?N"
    using collect_all [OF inr, of 0 ?N net ?req "[]"] len by (simp add: bcastReq_def ans)
  have c2: "\<forall>m < ?N. collect 0 ?N (map (peerTask net cfg ?req) (take m order)) [] = BcastBlocked"
  proof (intro allI impI)
    fix m assume m: "m < ?N"
    have "\<forall>i \<in> set (take m order). i < length (AgentEndpoints cfg)"
      using inr by (meson in_set_takeD)
    moreover have "0 + length (take m order) < ?N" using m len by simp
    ultimately show "collect 0 ?N (map (peerTask net cfg ?req) (take m order)) [] = BcastBlocked"
      by (rule collect_short)
  qed
  have c3: "(\<forall>i < ?N. ?ans i = None) \<longrightarrow> firstError (List.map_filter ?ans order) = None"
  proof
    assume "\<forall>i < ?N. ?ans i = None"
    then have "\<forall>i \<in> set order. ?ans i = None" using set_order by simp
    then have "List.map_filter ?ans order = []" by (rule map_filter_none)
    then show "firstError (List.map_filter ?ans order) = None" by (simp add: firstError_def)
  qed
  have c4: "(\<exists>i < ?N. ?ans i \<noteq> None) \<longrightarrow>
          (\<exists>k < length order. firstError (List.map_filter ?ans order) = ?ans (order ! k)
              \<and> ?ans (order ! k) \<noteq> None \<and> (\<forall>j < k. ?ans (order ! j) = None))"
  proof
    assume "\<exists>i < ?N. ?ans i \<noteq> None"
    then have "\<exists>i \<in> set order. ?ans i \<noteq> None" using set_order by auto
    then show "\<exists>k < length order. firstError (List.map_filter ?ans order) = ?ans (order ! k)
              \<and> ?ans (order ! k) \<noteq> None \<and> (\<forall>j < k. ?ans (order ! j) = None)"
      by (rule firstError_map_filter)
  qed
  show ?thesis by (rule conjI [OF c1 conjI [OF c2 conjI [OF c3 c4]]])
qed

lemma threePeers_endpoints:
  "PeerIPs threePeers = [''10.0.0.1'', ''10.0.0.2'', ''10.0.0.3'']"
  "AgentEndpoints threePeers = [''10.0.0.1:3500'', ''10.0.0.2:3500'', ''10.0.0.3:3500'']"
proof -
  have p: "itoaInt 3500 = ''3500''" by code_simp
  show "PeerIPs threePeers = [''10.0.0.1'', ''10.0.0.2'', ''10.0.0.3'']"
    by (simp add: threePeers_def CommandFunc_endpoints_def)
  show "AgentEndpoints threePeers = [''10.0.0.1:3500'', ''10.0.0.2:3500'', ''10.0.0.3:3500'']"
    by (simp add: threePeers_def CommandFunc_endpoints_def writeConfig_def p)
qed

theorem broadcast_waits_for_all_witness:
  "bcastReq allPeersUp threePeers someRequest Request_Start [2, 0, 1] = BcastReturned None [] 3
   \<and> bcastReq onePeerDown threePeers someRequest Request_Start [2, 0, 1]
       = BcastReturned (Some (Error ''unavailable'')) [Error ''unavailable''] 3
   \<and> bcastReq allPeersDown threePeers someRequest Request_Start [2, 0, 1]
       = BcastReturned (Some (Error ''unavailable''))
           [Error ''unavailable'', Error ''unavailable'', Error ''unavailable''] 3"
proof -
  have perm: "mset [2, 0, 1] = mset [0 ..< length (PeerIPs threePeers)]"
    by (simp add: threePeers_endpoints upt_rec numeral_eq_Suc)
  have eps: "length (AgentEndpoints threePeers) = length (PeerIPs threePeers)"
    by (simp add: threePeers_endpoints)
  have up: "peerAnswer allPeersUp threePeers someRequest Request_Start i = None" for i
    by (simp add: peerAnswer_def sendReq_def allPeersUp_def)
  have down: "peerAnswer allPeersDown threePeers someRequest Request_Start i
      = Some (Error ''unavailable'')" for i
    by (simp add: peerAnswer_def sendReq_def allPeersDown_def)
  have one: "peerAnswer onePeerDown threePeers someRequest Request_Start 0 = None"
      "peerAnswer onePeerDown threePeers someRequest Request_Start 1 = Some (Error ''unavailable'')"
      "peerAnswer onePeerDown threePeers someRequest Request_Start 2 = None"
    by (simp_all add: peerAnswer_def sendReq_def onePeerDown_def threePeers_endpoints)
  have N: "length (PeerIPs threePeers) = 3" by (simp add: threePeers_endpoints)
  have mu: "List.map_filter (peerAnswer allPeersUp threePeers someRequest Request_Start) [2, 0, 1] = []"
    by (simp add: up List.map_filter_simps)
  have mo: "List.map_filter (peerAnswer onePeerDown threePeers someRequest Request_Start) [2, 0, 1]
      = [Error ''unavailable'']"
    using one by (simp add: List.map_filter_simps)
  have md: "List.map_filter (peerAnswer allPeersDown threePeers someRequest Request_Start) [2, 0, 1]
      = [Error ''unavailable'', Error ''unavailable'', Error ''unavailable'']"
    by (simp add: down List.map_filter_simps)
  have a: "bcastReq allPeersUp threePeers someRequest Request_Start [2, 0, 1] = BcastReturned None [] 3"
    using broadcast_waits_for_all [OF perm eps, of allPeersUp someRequest Request_Start, THEN conjunct1]
    unfolding mu N by (simp add: firstError_def)
  have b: "bcastReq onePeerDown threePeers someRequest Request_Start [2, 0, 1]
       = BcastReturned (Some (Error ''unavailable'')) [Error ''unavailable''] 3"
    using broadcast_waits_for_all [OF perm eps, of onePeerDown someRequest Request_Start, THEN conjunct1]
    unfolding mo N by (simp add: firstError_def)
  have c: "bcastReq allPeersDown threePeers someRequest Request_Start [2, 0, 1]
       = BcastReturned (Some (Error ''unavailable''))
           [Error ''unavailable'', Error ''unavailable'', Error ''unavailable''] 3"
    using broadcast_waits_for_all [OF perm eps, of allPeersDown someRequest Request_Start, THEN conjunct1]
    unfolding md N by (simp add: firstError_def)
  show ?thesis by (rule conjI [OF a conjI [OF b c]])
qed
subsection \<open>The agent\<close>

lemma uploadLoop_fail:
  "k < 30 \<Longrightarrow> up k = Some e \<Longrightarrow>
   uploadLoop up b s d k = [UploadAttempt b s d, Delay 2] @ uploadLoop up b s d (Suc k)"
  by (subst uploadLoop.simps) simp

lemma uploadLoop_ok:
  "k < 30 \<Longrightarrow> up k = None \<Longrightarrow> uploadLoop up b s d k = [UploadAttempt b s d]"
  by (subst uploadLoop.simps) simp

lemma uploadLoop_end: "\<not> k < 30 \<Longrightarrow> uploadLoop up b s d k = []"
  by (subst uploadLoop.simps) simp

lemma uploadLoop_success:
  "k + n < 30 \<Longrightarrow> \<forall>j. k \<le> j \<and> j < k + n \<longrightarrow> up j \<noteq> None \<Longrightarrow> up (k + n) = None \<Longrightarrow>
   uploadLoop up b s d k = failedAttempts n b s d @ [UploadAttempt b s d]"
proof (induction n arbitrary: k)
  case 0
  then show ?case by (simp add: uploadLoop_ok)
next
  case (Suc n)
  have "up k \<noteq> None" using Suc.prems(2) by simp
  then obtain e where e: "up k = Some e" by auto
  have k: "k < 30" using Suc.prems(1) by simp
  have "uploadLoop up b s d (Suc k) = failedAttempts n b s d @ [UploadAttempt b s d]"
    using Suc.prems by (intro Suc.IH) simp_all
  then show ?case by (simp add: uploadLoop_fail [where up = up and k = k and e = e, OF k e])
qed

lemma uploadLoop_exhaust:
  "k + n = 30 \<Longrightarrow> \<forall>j. k \<le> j \<and> j < 30 \<longrightarrow> up j \<noteq> None \<Longrightarrow>
   uploadLoop up b s d k = failedAttempts n b s d"
proof (induction n arbitrary: k)
  case 0
  then show ?case by (simp add: uploadLoop_end)
next
  case (Suc n)
  have k: "k < 30" using Suc.prems(1) by simp
  then have "up k \<noteq> None" using Suc.prems(2) by simp
  then obtain e where e: "up k = Some e" by auto
  have "uploadLoop up b s d (Suc k) = failedAttempts n b s d"
    using Suc.prems by (intro Suc.IH) simp_all
  then show ?case by (simp add: uploadLoop_fail [where up = up and k = k and e = e, OF k e])
qed

lemma attempts_failedAttempts: "attempts (failedAttempts n b s d) = n"
  by (induction n) (simp_all add: attempts_def)

lemma delays_failedAttempts: "delays (failedAttempts n b s d) = n"
  by (induction n) (simp_all add: delays_def)

lemma attempts_append: "attempts (xs @ ys) = attempts xs + attempts ys"
  by (simp add: attempts_def)

lemma delays_append: "delays (xs @ ys) = delays xs + delays ys"
  by (simp add: delays_def)

lemma uploadLoop_bounds:
  "attempts (uploadLoop up b s d k) \<le> 30 - k
   \<and> delays (uploadLoop up b s d k) \<le> attempts (uploadLoop up b s d k)"
proof (induction "30 - k" arbitrary: k)
  case 0
  then show ?case by (simp add: uploadLoop_end attempts_def delays_def)
next
  case (Suc n)
  then have k: "k < 30" by simp
  have n: "n = 30 - Suc k" using Suc.hyps(2) by simp
  show ?case
  proof (cases "up k")
    case None
    then show ?thesis using k by (simp add: uploadLoop_ok attempts_def delays_def)
  next
    case (Some e)
    show ?thesis
      using Suc.hyps(1) [OF n] k
      by (auto simp: uploadLoop_fail [where up = up and k = k and e = e, OF k Some] attempts_def delays_def)
  qed
qed

lemma upload_one_file:
  "attempts (uploadOne sys r src) \<le> 30
   \<and> delays (uploadOne sys r src) \<le> attempts (uploadOne sys r src)
   \<and> (\<forall>n < 30.
        (\<forall>j < n. UploadFile sys (GoogleCloudStorageBucketName r) src (dstPath sys r src) j \<noteq> None)
        \<and> UploadFile sys (GoogleCloudStorageBucketName r) src (dstPath sys r src) n = None
        \<longrightarrow> uploadOne sys r src
              = failedAttempts n (GoogleCloudStorageBucketName r) src (dstPath sys r src)
                @ [UploadAttempt (GoogleCloudStorageBucketName r) src (dstPath sys r src)]
            \<and> attempts (uploadOne sys r src) = n + 1
            \<and> delays (uploadOne sys r src) = n)
   \<and> ((\<forall>j < 30. UploadFile sys (GoogleCloudStorageBucketName r) src (dstPath sys r src) j \<noteq> None)
        \<longrightarrow> uploadOne sys r src
              = failedAttempts 30 (GoogleCloudStorageBucketName r) src (dstPath sys r src)
            \<and> attempts (uploadOne sys r src) = 30
            \<and> delays (uploadOne sys r src) = 30)"
proof -
  let ?b = "GoogleCloudStorageBucketName r"
  let ?d = "dstPath sys r src"
  let ?up = "UploadFile sys ?b src ?d"
  have one: "uploadOne sys r src = uploadLoop ?up ?b src ?d 0" by (simp add: uploadOne_def)
  have c1: "attempts (uploadOne sys r src) \<le> 30"
      "delays (uploadOne sys r src) \<le> attempts (uploadOne sys r src)"
    using uploadLoop_bounds [of ?up ?b src ?d 0] by (simp_all add: one)
  have c3: "\<forall>n < 30. (\<forall>j < n. ?up j \<noteq> None) \<and> ?up n = None
        \<longrightarrow> uploadOne sys r src = failedAttempts n ?b src ?d @ [UploadAttempt ?b src ?d]
            \<and> attempts (uploadOne sys r src) = n + 1
            \<and> delays (uploadOne sys r src) = n"
  proof (intro allI impI, elim conjE)
    fix n assume n: "n < 30" and f: "\<forall>j < n. ?up j \<noteq> None" and s: "?up n = None"
    have "uploadLoop ?up ?b src ?d 0 = failedAttempts n ?b src ?d @ [UploadAttempt ?b src ?d]"
      using n f s by (intro uploadLoop_success) simp_all
    then have eq: "uploadOne sys r src = failedAttempts n ?b src ?d @ [UploadAttempt ?b src ?d]"
      by (simp add: one)
    have "attempts (uploadOne sys r src) = n + 1"
      unfolding eq attempts_append attempts_failedAttempts by (simp add: attempts_def)
    moreover have "delays (uploadOne sys r src) = n"
      unfolding eq delays_append delays_failedAttempts by (simp add: delays_def)
    ultimately show "uploadOne sys r src = failedAttempts n ?b src ?d @ [UploadAttempt ?b src ?d]
            \<and> attempts (uploadOne sys r src) = n + 1 \<and> delays (uploadOne sys r src) = n"
      using eq by simp
  qed
  have c4: "(\<forall>j < 30. ?up j \<noteq> None)
        \<longrightarrow> uploadOne sys r src = failedAttempts 30 ?b src ?d
            \<and> attempts (uploadOne sys r src) = 30 \<and> delays (uploadOne sys r src) = 30"
  proof
    assume f: "\<forall>j < 30. ?up j \<noteq> None"
    have "uploadLoop ?up ?b src ?d 0 = failedAttempts 30 ?b src ?d"
      using f by (intro uploadLoop_exhaust) simp_all
    then have eq: "uploadOne sys r src = failedAttempts 30 ?b src ?d" by (simp add: one)
    show "uploadOne sys r src = failedAttempts 30 ?b src ?d
            \<and> attempts (uploadOne sys r src) = 30 \<and> delays (uploadOne sys r src) = 30"
      unfolding eq attempts_failedAttempts delays_failedAttempts by simp
  qed
  show ?thesis by (rule conjI [OF c1(1) conjI [OF c1(2) conjI [OF c3 c4]]])
qed

text \<open>
  Claim C5: in the upload phase after \<open>Stop\<close> the three artifacts (database log,
  monitor log, agent log) are uploaded one after the other, each by its own loop,
  whatever the loops before it did (when the storage client cannot be made, nothing is
  uploaded). For each file at most 30 attempts are made and every failed attempt is
  followed by a delay of two seconds; an upload that first succeeds at attempt
  \<open>n + 1\<close> (the loop variable being \<open>n < 30\<close>) consists of \<open>n\<close> failed attempts, each
  with its delay, and the successful one: \<open>n + 1\<close> attempts and \<open>n\<close> delays; a file
  whose 30 attempts all fail gets exactly 30 attempts, after which the next file is
  uploaded. The phase is the body of a goroutine that returns nothing: no failure of an
  upload reaches \<open>Transfer\<close>'s caller.
\<close>

theorem upload_retry:
  "uploadPhase sys g t =
     (if NewGoogleCloudStorage sys (GoogleCloudStorageKey (req t)) (GoogleCloudProjectName (req t)) = None
      then uploadOne sys (req t) (databaseLogPath g)
           @ uploadOne sys (req t) (monitorLogPath g)
           @ uploadOne sys (req t) (agentLogPath g)
      else [])
   \<and> (\<forall>src.
        attempts (uploadOne sys (req t) src) \<le> 30
        \<and> delays (uploadOne sys (req t) src) \<le> attempts (uploadOne sys (req t) src)
        \<and> (\<forall>n < 30.
             (\<forall>j < n. UploadFile sys (GoogleCloudStorageBucketName (req t)) src
                         (dstPath sys (req t) src) j \<noteq> None)
             \<and> UploadFile sys (GoogleCloudStorageBucketName (req t)) src
                  (dstPath sys (req t) src) n = None
             \<longrightarrow> uploadOne sys (req t) src
                   = failedAttempts n (GoogleCloudStorageBucketName (req t)) src
                       (dstPath sys (req t) src)
                     @ [UploadAttempt (GoogleCloudStorageBucketName (req t)) src
                          (dstPath sys (req t) src)]
                 \<and> attempts (uploadOne sys (req t) src) = n + 1
                 \<and> delays (uploadOne sys (req t) src) = n)
        \<and> ((\<forall>j < 30. UploadFile sys (GoogleCloudStorageBucketName (req t)) src
                         (dstPath sys (req t) src) j \<noteq> None)
             \<longrightarrow> uploadOne sys (req t) src
                   = failedAttempts 30 (GoogleCloudStorageBucketName (req t)) src
                       (dstPath sys (req t) src)
                 \<and> attempts (uploadOne sys (req t) src) = 30
                 \<and> delays (uploadOne sys (req t) src) = 30))"
proof -
  have a: "uploadPhase sys g t =
     (if NewGoogleCloudStorage sys (GoogleCloudStorageKey (req t)) (GoogleCloudProjectName (req t)) = None
      then uploadOne sys (req t) (databaseLogPath g)
           @ uploadOne sys (req t) (monitorLogPath g)
           @ uploadOne sys (req t) (agentLogPath g)
      else [])"
    by (simp add: uploadPhase_def split: option.splits)
  show ?thesis
    by (rule conjI [OF a]) (intro allI upload_one_file)
qed

theorem upload_retry_witness:
  "attempts (uploadOne flakyStorage someRequest ''database.log'') = 30
   \<and> delays (uploadOne flakyStorage someRequest ''database.log'') = 30
   \<and> attempts (uploadOne flakyStorage someRequest ''monitor.csv'') = 30
   \<and> delays (uploadOne flakyStorage someRequest ''monitor.csv'') = 29
   \<and> attempts (uploadOne flakyStorage someRequest ''agent.log'') = 1
   \<and> delays (uploadOne flakyStorage someRequest ''agent.log'') = 0
   \<and> attempts (uploadPhase flakyStorage agentGlobals (freshServer\<lparr>req := someRequest\<rparr>)) = 61"
proof -
  let ?t = "freshServer\<lparr>req := someRequest\<rparr>"
  have rq: "req ?t = someRequest" by simp
  note u = upload_retry [of flakyStorage agentGlobals ?t, unfolded rq]
  note ph = u [THEN conjunct1]
  note db = u [THEN conjunct2, THEN spec, of "''database.log''"]
  note mo = u [THEN conjunct2, THEN spec, of "''monitor.csv''"]
  note ag = u [THEN conjunct2, THEN spec, of "''agent.log''"]
  have d: "attempts (uploadOne flakyStorage someRequest ''database.log'') = 30
      \<and> delays (uploadOne flakyStorage someRequest ''database.log'') = 30"
  proof -
    have "\<forall>j < 30. UploadFile flakyStorage (GoogleCloudStorageBucketName someRequest) ''database.log''
        (dstPath flakyStorage someRequest ''database.log'') j \<noteq> None"
      by (simp add: flakyStorage_def)
    then show ?thesis using db by blast
  qed
  have m: "attempts (uploadOne flakyStorage someRequest ''monitor.csv'') = 30
      \<and> delays (uploadOne flakyStorage someRequest ''monitor.csv'') = 29"
  proof -
    have "(\<forall>j < 29. UploadFile flakyStorage (GoogleCloudStorageBucketName someRequest) ''monitor.csv''
        (dstPath flakyStorage someRequest ''monitor.csv'') j \<noteq> None)
      \<and> UploadFile flakyStorage (GoogleCloudStorageBucketName someRequest) ''monitor.csv''
        (dstPath flakyStorage someRequest ''monitor.csv'') 29 = None"
      by (simp add: flakyStorage_def)
    moreover have "(29::nat) < 30" by simp
    ultimately have "attempts (uploadOne flakyStorage someRequest ''monitor.csv'') = 29 + 1
      \<and> delays (uploadOne flakyStorage someRequest ''monitor.csv'') = 29"
      using mo by blast
    then show ?thesis by simp
  qed
  have a: "attempts (uploadOne flakyStorage someRequest ''agent.log'') = 1
      \<and> delays (uploadOne flakyStorage someRequest ''agent.log'') = 0"
  proof -
    have "(\<forall>j < 0. UploadFile flakyStorage (GoogleCloudStorageBucketName someRequest) ''agent.log''
        (dstPath flakyStorage someRequest ''agent.log'') j \<noteq> None)
      \<and> UploadFile flakyStorage (GoogleCloudStorageBucketName someRequest) ''agent.log''
        (dstPath flakyStorage someRequest ''agent.log'') 0 = None"
      by (simp add: flakyStorage_def)
    moreover have "(0::nat) < 30" by simp
    ultimately have "attempts (uploadOne flakyStorage someRequest ''agent.log'') = 0 + 1
      \<and> delays (uploadOne flakyStorage someRequest ''agent.log'') = 0"
      using ag by blast
    then show ?thesis by simp
  qed
  have st: "NewGoogleCloudStorage flakyStorage (GoogleCloudStorageKey someRequest)
      (GoogleCloudProjectName someRequest) = None" by (simp add: flakyStorage_def)
  have p: "uploadPhase flakyStorage agentGlobals ?t =
      uploadOne flakyStorage someRequest ''database.log''
      @ uploadOne flakyStorage someRequest ''monitor.csv''
      @ uploadOne flakyStorage someRequest ''agent.log''"
    using ph st by (simp add: agentGlobals_def)
  have "attempts (uploadPhase flakyStorage agentGlobals ?t) = 61"
    unfolding p attempts_append using d m a by simp
  then show ?thesis using d m a by simp
qed

lemma WorkingDirectory_rebase: "WorkingDirectory (rebase sys g) = WorkingDirectory g"
  by (simp add: rebase_def)

lemma effects_after: "effects (after es res) = es @ effects res"
  by (simp add: after_def)

lemma returned_after: "returned (after es res) = returned res"
  by (simp add: after_def)

lemma server_after: "server (after es res) = server res"
  by (simp add: after_def)

lemma finish_simps:
  "returned (finish r t g) = r" "server (finish r t g) = t" "effects (finish r t g) = []"
  by (simp_all add: finish_def)

lemma restart_nil:
  "cmd t = None \<Longrightarrow> restart sys g t r = finish (Failed (Error ''nil command'')) t g"
  by (simp add: restart_def)

lemma stop_nil:
  "cmd t = None \<Longrightarrow> stop sys g t = after [Sleep 3] (finish (Failed (Error ''nil command'')) t g)"
  by (simp add: stop_def)

text \<open>
  Claim C4: on an agent whose record holds no command (no \<open>Start\<close> has succeeded),
  \<open>Stop\<close> and \<open>Restart\<close> return an error, leave the record as it was and take no
  action on a process or its log: no process is started, no signal sent, no log file
  closed, the monitor is neither started nor told. When the recorded request carries no
  storage key the error is \<open>nil command\<close> and the only effect is the three-second wait
  of \<open>Stop\<close>.
\<close>

theorem stop_restart_without_start:
  assumes nil: "cmd t = None"
    and op: "Operation r = Request_Stop \<or> Operation r = Request_Restart"
  shows "(\<exists>err. returned (Transfer sys g t r) = Failed err)
    \<and> server (Transfer sys g t r) = t
    \<and> (\<forall>e \<in> set (effects (Transfer sys g t r)). \<not> processAction e)
    \<and> (GoogleCloudStorageKey (req t) = [] \<longrightarrow>
          returned (Transfer sys g t r) = Failed (Error ''nil command'')
          \<and> effects (Transfer sys g t r) = (if Operation r = Request_Stop then [Sleep 3] else []))"
  using op
proof
  assume s: "Operation r = Request_Stop"
  show ?thesis
    by (cases "toFile sys (GoogleCloudStorageKey (req t)) (gcloudKeyPath sys g)")
       (simp_all add: Transfer_def operate_def s stop_nil [OF nil] Let_def
          effects_after returned_after server_after finish_simps)
next
  assume s: "Operation r = Request_Restart"
  show ?thesis
    by (cases "toFile sys (GoogleCloudStorageKey (req t)) (gcloudKeyPath sys (rebase sys g))")
       (simp_all add: Transfer_def operate_def s restart_nil [OF nil] Let_def
          effects_after returned_after server_after finish_simps)
qed

theorem stop_restart_without_start_witness:
  "returned (Transfer flakyStorage agentGlobals freshServer (someRequest\<lparr>Operation := Request_Stop\<rparr>))
     = Failed (Error ''nil command'')
   \<and> effects (Transfer flakyStorage agentGlobals freshServer (someRequest\<lparr>Operation := Request_Stop\<rparr>))
     = [Sleep 3]
   \<and> server (Transfer flakyStorage agentGlobals freshServer (someRequest\<lparr>Operation := Request_Stop\<rparr>))
     = freshServer
   \<and> returned (Transfer flakyStorage agentGlobals freshServer (someRequest\<lparr>Operation := Request_Restart\<rparr>))
     = Failed (Error ''nil command'')
   \<and> effects (Transfer flakyStorage agentGlobals freshServer (someRequest\<lparr>Operation := Request_Restart\<rparr>))
     = []
   \<and> server (Transfer flakyStorage agentGlobals freshServer (someRequest\<lparr>Operation := Request_Restart\<rparr>))
     = freshServer"
proof -
  have nil: "cmd freshServer = None" by (simp add: freshServer_def)
  have key: "GoogleCloudStorageKey (req freshServer) = []" by (simp add: freshServer_def)
  have s: "Operation (someRequest\<lparr>Operation := Request_Stop\<rparr>) = Request_Stop
      \<or> Operation (someRequest\<lparr>Operation := Request_Stop\<rparr>) = Request_Restart" by simp
  have r: "Operation (someRequest\<lparr>Operation := Request_Restart\<rparr>) = Request_Stop
      \<or> Operation (someRequest\<lparr>Operation := Request_Restart\<rparr>) = Request_Restart" by simp
  note a = stop_restart_without_start [OF nil s, of flakyStorage agentGlobals]
  note b = stop_restart_without_start [OF nil r, of flakyStorage agentGlobals]
  show ?thesis using a b key by simp
qed

text \<open>
  Claim C10: on every call of \<open>Transfer\<close>, whatever the operation, if the recorded
  request (the incoming one for a \<open>Start\<close>) has a non-empty \<open>GoogleCloudStorageKey\<close>,
  the first effect of the call is the write of that key to \<open>gcloud-key.json\<close> in the
  working directory; and if that write fails, \<open>Transfer\<close> returns its error, the write
  is the only effect (no process is started, signalled or stopped), and command, log
  file and process id of the record are as before.
\<close>

theorem key_file_written_first:
  assumes key: "GoogleCloudStorageKey (if Operation r = Request_Start then r else req t) \<noteq> []"
  shows "(\<exists>rest. effects (Transfer sys g t r)
            = WriteFile (filepath_Join sys (WorkingDirectory g) ''gcloud-key.json'')
                (GoogleCloudStorageKey (if Operation r = Request_Start then r else req t)) # rest)
    \<and> (\<forall>err. toFile sys (GoogleCloudStorageKey (if Operation r = Request_Start then r else req t))
                (filepath_Join sys (WorkingDirectory g) ''gcloud-key.json'') = Some err \<longrightarrow>
          returned (Transfer sys g t r) = Failed err
          \<and> effects (Transfer sys g t r)
              = [WriteFile (filepath_Join sys (WorkingDirectory g) ''gcloud-key.json'')
                   (GoogleCloudStorageKey (if Operation r = Request_Start then r else req t))]
          \<and> (\<forall>e \<in> set (effects (Transfer sys g t r)). \<not> processAction e)
          \<and> cmd (server (Transfer sys g t r)) = cmd t
          \<and> logfile (server (Transfer sys g t r)) = logfile t
          \<and> pid (server (Transfer sys g t r)) = pid t)"
proof -
  let ?g = "if Operation r = Request_Start \<or> Operation r = Request_Restart then rebase sys g else g"
  let ?t = "if Operation r = Request_Start then t\<lparr>req := r\<rparr> else t"
  let ?k = "GoogleCloudStorageKey (if Operation r = Request_Start then r else req t)"
  let ?p = "filepath_Join sys (WorkingDirectory g) ''gcloud-key.json''"
  have k: "GoogleCloudStorageKey (req ?t) = ?k" by simp
  have p: "gcloudKeyPath sys ?g = ?p" by (simp add: gcloudKeyPath_def WorkingDirectory_rebase)
  have T: "Transfer sys g t r =
      after [WriteFile ?p ?k]
        (case toFile sys ?k ?p of
           Some err \<Rightarrow> finish (Failed err) ?t ?g
         | None \<Rightarrow> operate sys ?g ?t r (Split (PeerIPString r) ''___''))"
    using key unfolding Transfer_def Let_def k p by simp
  have a: "\<exists>rest. effects (Transfer sys g t r) = WriteFile ?p ?k # rest"
    unfolding T by (simp add: effects_after)
  have b: "\<forall>err. toFile sys ?k ?p = Some err \<longrightarrow>
          returned (Transfer sys g t r) = Failed err
          \<and> effects (Transfer sys g t r) = [WriteFile ?p ?k]
          \<and> (\<forall>e \<in> set (effects (Transfer sys g t r)). \<not> processAction e)
          \<and> cmd (server (Transfer sys g t r)) = cmd t
          \<and> logfile (server (Transfer sys g t r)) = logfile t
          \<and> pid (server (Transfer sys g t r)) = pid t"
  proof (intro allI impI)
    fix err assume f: "toFile sys ?k ?p = Some err"
    have "Transfer sys g t r = after [WriteFile ?p ?k] (finish (Failed err) ?t ?g)"
      unfolding T f by simp
    then show "returned (Transfer sys g t r) = Failed err
          \<and> effects (Transfer sys g t r) = [WriteFile ?p ?k]
          \<and> (\<forall>e \<in> set (effects (Transfer sys g t r)). \<not> processAction e)
          \<and> cmd (server (Transfer sys g t r)) = cmd t
          \<and> logfile (server (Transfer sys g t r)) = logfile t
          \<and> pid (server (Transfer sys g t r)) = pid t"
      by (simp add: effects_after returned_after server_after finish_simps)
  qed
  show ?thesis by (rule conjI [OF a b])
qed

theorem key_file_written_first_witness:
  "returned (Transfer readOnlyDisk agentGlobals runningServer (someRequest\<lparr>Operation := Request_Stop\<rparr>))
     = Failed (Error ''read-only file system'')
   \<and> effects (Transfer readOnlyDisk agentGlobals runningServer (someRequest\<lparr>Operation := Request_Stop\<rparr>))
     = [WriteFile ''/home/agent/gcloud-key.json'' ''secret'']
   \<and> cmd (server (Transfer readOnlyDisk agentGlobals runningServer
         (someRequest\<lparr>Operation := Request_Stop\<rparr>))) = cmd runningServer
   \<and> effects (Transfer flakyStorage agentGlobals runningServer (someRequest\<lparr>Operation := Request_Stop\<rparr>))
     = [WriteFile ''/home/agent/gcloud-key.json'' ''secret'', Sleep 3, Signal 4242,
        CloseLog ''database.log'', NotifyStopped]"
proof -
  let ?r = "someRequest\<lparr>Operation := Request_Stop\<rparr>"
  have key: "GoogleCloudStorageKey (if Operation ?r = Request_Start then ?r else req runningServer) \<noteq> []"
    by (simp add: runningServer_def)
  have k: "GoogleCloudStorageKey (if Operation ?r = Request_Start then ?r else req runningServer) = ''secret''"
    by (simp add: runningServer_def)
  have p: "filepath_Join readOnlyDisk (WorkingDirectory agentGlobals) ''gcloud-key.json''
      = ''/home/agent/gcloud-key.json''"
    by (simp add: readOnlyDisk_def flakyStorage_def agentGlobals_def)
  have f: "toFile readOnlyDisk ''secret'' ''/home/agent/gcloud-key.json''
      = Some (Error ''read-only file system'')"
    by (simp add: readOnlyDisk_def)
  note w = key_file_written_first [OF key, of readOnlyDisk agentGlobals, unfolded k p,
      THEN conjunct2, THEN spec, THEN mp, OF f]
  have ok: "effects (Transfer flakyStorage agentGlobals runningServer ?r)
     = [WriteFile ''/home/agent/gcloud-key.json'' ''secret'', Sleep 3, Signal 4242,
        CloseLog ''database.log'', NotifyStopped]"
    by (simp add: Transfer_def operate_def stop_def Let_def runningServer_def flakyStorage_def
          agentGlobals_def gcloudKeyPath_def effects_after finish_simps someRequest_def)
  show ?thesis using w ok by simp
qed

text \<open>A successful \<open>Start\<close> of etcd on a fresh agent, for comparison with the source.\<close>

lemma start_etcd_example:
  "effects (Transfer flakyStorage agentGlobals freshServer someRequest)
     = [StatFile ''/go/bin/etcd'', RemoveDir ''/home/agent/data.etcd'',
        OpenLog ''/home/agent/database.log'',
        StartProcess \<lparr>Path = ''/go/bin/etcd'',
          Args = [''/go/bin/etcd'', ''--name'', ''etcd-1'',
                  ''--data-dir'', ''/home/agent/data.etcd'',
                  ''--listen-client-urls'', ''http://10.0.0.1:2379'',
                  ''--advertise-client-urls'', ''http://10.0.0.1:2379'',
                  ''--listen-peer-urls'', ''http://10.0.0.1:2380'',
                  ''--initial-advertise-peer-urls'', ''http://10.0.0.1:2380'',
                  ''--initial-cluster-token'', ''etcd_token'',
                  ''--initial-cluster'',
                  ''etcd-1=http://10.0.0.1:2380,etcd-2=http://10.0.0.2:2380,etcd-3=http://10.0.0.3:2380'',
                  ''--initial-cluster-state'', ''new'']\<rparr>,
        GoWait 4242, GoMonitor 4242]
   \<and> returned (Transfer flakyStorage agentGlobals freshServer someRequest) = Responded True
   \<and> pid (server (Transfer flakyStorage agentGlobals freshServer someRequest)) = 4242"
proof -
  have sp: "Split (PeerIPString someRequest) ''___'' = [''10.0.0.1'', ''10.0.0.2'', ''10.0.0.3'']"
    by (simp add: someRequest_def Split_def HasPrefix_def)
  have i: "itoa (Suc 0) = ''1''" "itoa (Suc (Suc 0)) = ''2''" "itoa (Suc (Suc (Suc 0))) = ''3''"
    by code_simp+
  have fl: "etcdFlags (rebase flakyStorage agentGlobals) [''10.0.0.1'', ''10.0.0.2'', ''10.0.0.3''] 0
     = [''--name'', ''etcd-1'',
                  ''--data-dir'', ''/home/agent/data.etcd'',
                  ''--listen-client-urls'', ''http://10.0.0.1:2379'',
                  ''--advertise-client-urls'', ''http://10.0.0.1:2379'',
                  ''--listen-peer-urls'', ''http://10.0.0.1:2380'',
                  ''--initial-advertise-peer-urls'', ''http://10.0.0.1:2380'',
                  ''--initial-cluster-token'', ''etcd_token'',
                  ''--initial-cluster'',
                  ''etcd-1=http://10.0.0.1:2380,etcd-2=http://10.0.0.2:2380,etcd-3=http://10.0.0.3:2380'',
                  ''--initial-cluster-state'', ''new'']"
    by (simp add: etcdFlags_def Let_def upt_rec numeral_eq_Suc rebase_def underWorkingDirectory_def
          HasPrefix_def agentGlobals_def flakyStorage_def i)
  have g: "etcdBinaryPath (rebase flakyStorage agentGlobals) = ''/go/bin/etcd''"
      "etcdDataDir (rebase flakyStorage agentGlobals) = ''/home/agent/data.etcd''"
      "databaseLogPath (rebase flakyStorage agentGlobals) = ''/home/agent/database.log''"
    by (simp_all add: rebase_def underWorkingDirectory_def HasPrefix_def agentGlobals_def
          flakyStorage_def)
  have s: "Stat flakyStorage p = None" "RemoveAll flakyStorage p = None"
      "openToAppend flakyStorage p = Inr p" "Start flakyStorage c = Inr 4242" for p c
    by (simp_all add: flakyStorage_def)
  have rq: "Operation someRequest = Request_Start" "Database_req someRequest = Request_etcdv3"
      "GoogleCloudStorageKey someRequest = []" "unat (ServerIndex someRequest) = 0"
    by (simp_all add: someRequest_def)
  show ?thesis
    unfolding Transfer_def Let_def sp
    by (simp add: rq operate_def startEtcd_def launch_def command_def fl g s effects_after
          returned_after server_after finish_simps)
qed
end
